theory Spec2Isabelle
  imports Complex_Main
begin

section \<open>Data model of CameraRealSense2\<close>

text \<open>
  Timestamps are C++ \<^verbatim>\<open>double\<close>s and sensor readings \<^verbatim>\<open>cv::Vec3f\<close>; both are modelled
  over the reals, so rounding and NaN are outside the model.
  A \<^verbatim>\<open>std::map<double, V>\<close> is the list of its entries in iteration order (keys strictly
  increasing); an iterator is the index of its entry, \<^verbatim>\<open>begin()\<close> is 0 and \<^verbatim>\<open>end()\<close> is the
  length.
\<close>

type_synonym vec3 = "real \<times> real \<times> real"

type_synonym 'v buffer = "(real \<times> 'v) list"

datatype stream_type =
    RS2_STREAM_GYRO | RS2_STREAM_ACCEL | RS2_STREAM_POSE
  | RS2_STREAM_COLOR | RS2_STREAM_INFRARED | RS2_STREAM_DEPTH | RS2_STREAM_FISHEYE
  | RS2_STREAM_OTHER

text \<open>
  A frame handed over by the driver. The class \<^verbatim>\<open>Transform\<close> is declared outside the given
  sources, so it is the type parameter \<open>'tf\<close>: \<open>pose_of\<close> is the transform \<^verbatim>\<open>poseT\<close> that
  \<^verbatim>\<open>pose_callback\<close> builds from the frame's pose data, \<open>confidence_of\<close> its tracker
  confidence, \<open>reading_of\<close> the three floats of a motion frame.
\<close>

record 'tf frame =
  stream_of :: stream_type
  timestamp_of :: real
  reading_of :: vec3
  pose_of :: 'tf
  confidence_of :: nat

text \<open>
  An \<^verbatim>\<open>IMU\<close> built from a gyro and an accel reading; covariances and local transform are
  left out. The class is declared outside the given sources: the empty \<^verbatim>\<open>IMU()\<close> is \<open>None\<close>
  of \<open>imu option\<close>, and \<^verbatim>\<open>imu.empty()\<close> is taken to hold exactly for it.
\<close>

datatype imu = IMU (gyro_of: vec3) (acc_of: vec3)

datatype message =
    PoseWaitWarn | PoseEarliestWarn | PoseBetweenWarn
  | ImuWaitWarn stream_type | ImuEarliestWarn stream_type | ImuBetweenWarn stream_type
  | ImuRestampNotice stream_type
  | ClockNotSyncWarn | NotReceivedDepthRgb | MissingFrames nat | FrameCallbackError

record 'tf camera =
  gyroBuffer :: "vec3 buffer"
  accBuffer :: "vec3 buffer"
  poseBuffer :: "('tf \<times> nat) buffer"
  syncer :: "'tf frame list"
  lastImuStamp :: real
  clockSyncWarningShown :: bool
  imuGlobalSyncWarningShown :: bool
  ir :: bool
  irDepth :: bool
  odometryProvided :: bool
  globalTimeSync :: bool
  publishInterIMU :: bool
  isL500 :: bool

section \<open>The ordered buffers\<close>

text \<open>
  \<^verbatim>\<open>std::map::insert(hint, value)\<close>: the entry goes to its place in key order; when the key
  is already present the map is left as it is. The hint does not change the result.
\<close>

fun map_insert :: "real \<Rightarrow> 'v \<Rightarrow> 'v buffer \<Rightarrow> 'v buffer" where
  "map_insert k v [] = [(k, v)]"
| "map_insert k v (e # es) =
     (if k < fst e then (k, v) # e # es
      else if k = fst e then e # es
      else e # map_insert k v es)"

text \<open>\<^verbatim>\<open>buf.insert(buf.end(), make_pair(stamp, value)); if(buf.size() > 1000) buf.erase(buf.begin());\<close>\<close>

definition push_sample :: "real \<Rightarrow> 'v \<Rightarrow> 'v buffer \<Rightarrow> 'v buffer" where
  "push_sample k v buf =
     (let buf' = map_insert k v buf in if length buf' > 1000 then tl buf' else buf')"

text \<open>\<^verbatim>\<open>lower_bound(stamp)\<close>: the first entry whose key is not less than \<open>stamp\<close>.\<close>

definition lower_bound :: "'v buffer \<Rightarrow> real \<Rightarrow> nat" where
  "lower_bound buf stamp = length (takeWhile (\<lambda>e. fst e < stamp) buf)"

text \<open>\<^verbatim>\<open>upper_bound(stamp)\<close>: the first entry whose key is greater than \<open>stamp\<close>.\<close>

definition upper_bound :: "'v buffer \<Rightarrow> real \<Rightarrow> nat" where
  "upper_bound buf stamp = length (takeWhile (\<lambda>e. fst e \<le> stamp) buf)"

definition strictly_ordered :: "'v buffer \<Rightarrow> bool" where
  "strictly_ordered buf = sorted_wrt (<) (map fst buf)"

section \<open>Ingest callbacks\<close>

definition imu_callback :: "'tf camera \<Rightarrow> 'tf frame \<Rightarrow> 'tf camera" where
  "imu_callback s f =
     (if stream_of f = RS2_STREAM_GYRO
      then s\<lparr>gyroBuffer := push_sample (timestamp_of f) (reading_of f) (gyroBuffer s)\<rparr>
      else s\<lparr>accBuffer := push_sample (timestamp_of f) (reading_of f) (accBuffer s)\<rparr>)"

definition pose_callback :: "'tf camera \<Rightarrow> 'tf frame \<Rightarrow> 'tf camera" where
  "pose_callback s f =
     s\<lparr>poseBuffer := push_sample (timestamp_of f) (pose_of f, confidence_of f) (poseBuffer s)\<rparr>"

definition frame_callback :: "'tf camera \<Rightarrow> 'tf frame \<Rightarrow> 'tf camera" where
  "frame_callback s f = s\<lparr>syncer := syncer s @ [f]\<rparr>"

definition multiple_message_callback :: "'tf camera \<Rightarrow> 'tf frame \<Rightarrow> 'tf camera" where
  "multiple_message_callback s f =
     (case stream_of f of
        RS2_STREAM_GYRO \<Rightarrow> imu_callback s f
      | RS2_STREAM_ACCEL \<Rightarrow> imu_callback s f
      | RS2_STREAM_POSE \<Rightarrow> (if odometryProvided s then pose_callback s f else s)
      | _ \<Rightarrow> frame_callback s f)"

section \<open>getPoseAndIMU\<close>

text \<open>
  The consumer releases the lock while it sleeps, so the producer threads may run then.
  The schedule is the list of frame batches the driver delivers during the successive
  \<^verbatim>\<open>uSleep(1)\<close> calls; when it is used up nothing more arrives.
\<close>

type_synonym 'tf schedule = "'tf frame list list"

definition uSleep :: "'tf camera \<Rightarrow> 'tf schedule \<Rightarrow> 'tf camera \<times> 'tf schedule" where
  "uSleep s sched =
     (case sched of [] \<Rightarrow> (s, []) | b # bs \<Rightarrow> (foldl multiple_message_callback s b, bs))"

text \<open>
  \<^verbatim>\<open>while(maxWaitTimeMs > 0 && buf.rbegin()->first < stamp && waitTry < maxWaitTimeMs)\<close>,
  for the buffer selected by \<open>sel\<close>. Every caller has checked that the buffer is not empty, and
  the callbacks never empty a buffer.
\<close>

function waitLoop ::
  "('tf camera \<Rightarrow> 'v buffer) \<Rightarrow> int \<Rightarrow> real \<Rightarrow> int \<Rightarrow> 'tf camera \<Rightarrow> 'tf schedule
     \<Rightarrow> 'tf camera \<times> 'tf schedule" where
  "waitLoop sel maxWaitTimeMs stamp waitTry s sched =
     (if maxWaitTimeMs > 0 \<and> fst (last (sel s)) < stamp \<and> waitTry < maxWaitTimeMs
      then (case uSleep s sched of
              (s', sched') \<Rightarrow> waitLoop sel maxWaitTimeMs stamp (waitTry + 1) s' sched')
      else (s, sched))"
  by pat_completeness auto
termination
  by (relation "measure (\<lambda>(sel, maxWaitTimeMs, stamp, waitTry, s, sched).
        nat (maxWaitTimeMs - waitTry))") auto

declare waitLoop.simps [simp del]

text \<open>The bracketing iterators \<^verbatim>\<open>iterA\<close> and \<^verbatim>\<open>iterB\<close> around \<open>stamp\<close>.\<close>

definition bracket :: "'v buffer \<Rightarrow> real \<Rightarrow> nat \<times> nat" where
  "bracket buf stamp =
     (let iterB = lower_bound buf stamp;
          iterA = (if iterB \<noteq> 0 then iterB - 1 else iterB);
          iterB = (if iterB = length buf then iterB - 1 else iterB)
      in (iterA, iterB))"

definition lerp :: "real \<Rightarrow> vec3 \<Rightarrow> vec3 \<Rightarrow> vec3" where
  "lerp t a b =
     (case a of (a0, a1, a2) \<Rightarrow> case b of (b0, b1, b2) \<Rightarrow>
        (a0 + t * (b0 - a0), a1 + t * (b1 - a1), a2 + t * (b2 - a2)))"

text \<open>
  The block "Interpolate pose". The result is the camera after the wait, the rest of the
  schedule, the pose (\<open>None\<close> for the null transform), the confidence and the warnings.
  \<open>interpolate t a b\<close> stands for \<^verbatim>\<open>a.interpolate(t, b)\<close> of the class \<^verbatim>\<open>Transform\<close>.
\<close>

definition interpolatePose ::
  "(real \<Rightarrow> 'tf \<Rightarrow> 'tf \<Rightarrow> 'tf) \<Rightarrow> 'tf camera \<Rightarrow> 'tf schedule \<Rightarrow> real \<Rightarrow> int
     \<Rightarrow> 'tf camera \<times> 'tf schedule \<times> 'tf option \<times> nat \<times> message list" where
  "interpolatePose interpolate s sched stamp maxWaitTimeMs =
     (case waitLoop poseBuffer maxWaitTimeMs stamp 0 s sched of (s1, sched1) \<Rightarrow>
        let buf = poseBuffer s1 in
        if fst (last buf) < stamp
        then (s1, sched1, None, 0, if maxWaitTimeMs > 0 then [PoseWaitWarn] else [])
        else
          (case bracket buf stamp of (iterA, iterB) \<Rightarrow>
             let a = buf ! iterA; b = buf ! iterB in
             if iterA = iterB \<and> stamp = fst a
             then (s1, sched1, Some (fst (snd a)), snd (snd a), [])
             else if stamp \<ge> fst a \<and> stamp \<le> fst b
             then (s1, sched1,
                   Some (interpolate ((stamp - fst a) / (fst b - fst a)) (fst (snd a)) (fst (snd b))),
                   snd (snd a), [])
             else if stamp < fst a
             then (s1, sched1, None, 0, [PoseEarliestWarn])
             else (s1, sched1, None, 0, [PoseBetweenWarn])))"

text \<open>
  The blocks "Interpolate acc" and "Interpolate gyro" are the same text on the two buffers;
  \<open>st\<close> says which one. The value is \<open>None\<close> where the source returns from the function.
\<close>

definition imuBuffer :: "stream_type \<Rightarrow> 'tf camera \<Rightarrow> vec3 buffer" where
  "imuBuffer st s = (if st = RS2_STREAM_GYRO then gyroBuffer s else accBuffer s)"

definition interpolateIMU ::
  "stream_type \<Rightarrow> 'tf camera \<Rightarrow> 'tf schedule \<Rightarrow> real \<Rightarrow> int
     \<Rightarrow> 'tf camera \<times> 'tf schedule \<times> vec3 option \<times> message list" where
  "interpolateIMU st s sched stamp maxWaitTimeMs =
     (case waitLoop (imuBuffer st) maxWaitTimeMs stamp 0 s sched of (s1, sched1) \<Rightarrow>
        let buf = imuBuffer st s1 in
        if fst (last buf) < stamp
        then (s1, sched1, None, if maxWaitTimeMs > 0 then [ImuWaitWarn st] else [])
        else
          (case bracket buf stamp of (iterA, iterB) \<Rightarrow>
             let a = buf ! iterA; b = buf ! iterB in
             if iterA = iterB \<and> stamp = fst a
             then (s1, sched1, Some (snd a), [])
             else if stamp \<ge> fst a \<and> stamp \<le> fst b
             then (s1, sched1, Some (lerp ((stamp - fst a) / (fst b - fst a)) (snd a) (snd b)), [])
             else
               let shown = imuGlobalSyncWarningShown s1;
                   w1 = (if \<not> shown
                         then [if stamp < fst a then ImuEarliestWarn st else ImuBetweenWarn st]
                         else [])
               in
               if \<not> globalTimeSync s1
               then (s1\<lparr>imuGlobalSyncWarningShown := True\<rparr>, sched1, Some (snd (last buf)),
                     w1 @ (if \<not> shown then [ImuRestampNotice st] else []))
               else (s1, sched1, None, w1)))"

record 'tf lookup =
  cam :: "'tf camera"
  rest :: "'tf schedule"
  pose :: "'tf option"
  poseConfidence :: nat
  imu :: "imu option"
  warnings :: "message list"

definition getPoseAndIMU ::
  "(real \<Rightarrow> 'tf \<Rightarrow> 'tf \<Rightarrow> 'tf) \<Rightarrow> 'tf camera \<Rightarrow> 'tf schedule \<Rightarrow> real \<Rightarrow> int \<Rightarrow> 'tf lookup" where
  "getPoseAndIMU interpolate s sched stamp maxWaitTimeMs =
     (if accBuffer s = [] \<or> gyroBuffer s = []
      then \<lparr>cam = s, rest = sched, pose = None, poseConfidence = 0, imu = None, warnings = []\<rparr>
      else
        (case (if poseBuffer s \<noteq> []
               then interpolatePose interpolate s sched stamp maxWaitTimeMs
               else (s, sched, None, 0, []))
         of (s1, sched1, p, c, w1) \<Rightarrow>
           (case interpolateIMU RS2_STREAM_ACCEL s1 sched1 stamp maxWaitTimeMs
            of (s2, sched2, accV, w2) \<Rightarrow>
              (case accV of
                 None \<Rightarrow> \<lparr>cam = s2, rest = sched2, pose = p, poseConfidence = c, imu = None,
                          warnings = w1 @ w2\<rparr>
               | Some acc \<Rightarrow>
                   (case interpolateIMU RS2_STREAM_GYRO s2 sched2 stamp maxWaitTimeMs
                    of (s3, sched3, gyroV, w3) \<Rightarrow>
                      \<lparr>cam = s3, rest = sched3, pose = p, poseConfidence = c,
                       imu = (case gyroV of None \<Rightarrow> None | Some gyro \<Rightarrow> Some (IMU gyro acc)),
                       warnings = w1 @ w2 @ w3\<rparr>)))))"

section \<open>init\<close>

text \<open>
  Of \<^verbatim>\<open>init\<close> the model keeps what it does to the fields above: both warning latches are
  cleared first; \<^verbatim>\<open>isL500_\<close> is set from the device found, when the set-up gets that far
  (\<open>None\<close>: \<^verbatim>\<open>init\<close> returned before). The buffers are not cleared.
\<close>

definition init :: "'tf camera \<Rightarrow> bool option \<Rightarrow> 'tf camera" where
  "init s device =
     s\<lparr>clockSyncWarningShown := False, imuGlobalSyncWarningShown := False,
       isL500 := (case device of None \<Rightarrow> isL500 s | Some l500 \<Rightarrow> l500)\<rparr>"

section \<open>captureImage\<close>

text \<open>
  A frame set of the syncer: its own timestamp (\<^verbatim>\<open>frameset.get_timestamp()\<close>, a value of the
  librealsense library) and its frames.
\<close>

record 'tf frameset =
  fs_timestamp :: real
  fs_frames :: "'tf frame list"

definition desiredFramesetSize :: "'tf camera \<Rightarrow> nat" where
  "desiredFramesetSize s = (if isL500 s \<and> globalTimeSync s then 3 else 2)"

text \<open>
  \<^verbatim>\<open>while((int)frameset.size() != desiredFramesetSize && timer.elapsed() < 2.0)
      frameset = syncer_->wait_for_frames(100);\<close>
  The timer is real time: \<open>retries\<close> lists what the successive \<^verbatim>\<open>wait_for_frames(100)\<close> calls
  would give while less than two seconds have elapsed, so the deadline has passed when the
  list is used up. \<open>None\<close> is a call that throws; the result is then \<open>None\<close> too.
\<close>

fun retryLoop :: "nat \<Rightarrow> 'tf frameset \<Rightarrow> 'tf frameset option list \<Rightarrow> 'tf frameset option" where
  "retryLoop desired fs [] = Some fs"
| "retryLoop desired fs (r # rs) =
     (if length (fs_frames fs) \<noteq> desired
      then (case r of None \<Rightarrow> None | Some fs' \<Rightarrow> retryLoop desired fs' rs)
      else Some fs)"

text \<open>The locals of the loop over the frames of the set; \<open>scan_stamp\<close> is \<^verbatim>\<open>stamp\<close>.\<close>

record 'tf scan =
  scan_stamp :: real
  is_rgb_arrived :: bool
  is_depth_arrived :: bool
  is_left_fisheye_arrived :: bool
  is_right_fisheye_arrived :: bool
  rgb_frame :: "'tf frame option"
  depth_frame :: "'tf frame option"

definition scan_frame :: "'tf camera \<Rightarrow> 'tf scan \<Rightarrow> 'tf frame \<Rightarrow> 'tf scan" where
  "scan_frame s a0 f =
     (let a = a0\<lparr>scan_stamp :=
                 (if scan_stamp a0 > timestamp_of f then timestamp_of f else scan_stamp a0)\<rparr>;
          stream = stream_of f
      in
      if stream = RS2_STREAM_COLOR \<or> stream = RS2_STREAM_INFRARED then
        (if isL500 s then
           (if stream = RS2_STREAM_COLOR
            then a\<lparr>rgb_frame := Some f, is_rgb_arrived := True\<rparr> else a)
         else if ir s \<and> \<not> irDepth s then
           (if \<not> is_depth_arrived a
            then a\<lparr>depth_frame := Some f, is_depth_arrived := True\<rparr>
            else a\<lparr>rgb_frame := Some f, is_rgb_arrived := True\<rparr>)
         else a\<lparr>rgb_frame := Some f, is_rgb_arrived := True\<rparr>)
      else if stream = RS2_STREAM_DEPTH then
        a\<lparr>depth_frame := Some f, is_depth_arrived := True\<rparr>
      else if stream = RS2_STREAM_FISHEYE then
        (if \<not> is_right_fisheye_arrived a
         then a\<lparr>depth_frame := Some f, is_right_fisheye_arrived := True\<rparr>
         else a\<lparr>rgb_frame := Some f, is_left_fisheye_arrived := True\<rparr>)
      else a)"

definition scan_frameset :: "'tf camera \<Rightarrow> 'tf frameset \<Rightarrow> 'tf scan" where
  "scan_frameset s fs =
     foldl (scan_frame s)
       \<lparr>scan_stamp = fs_timestamp fs, is_rgb_arrived = False, is_depth_arrived = False,
        is_left_fisheye_arrived = False, is_right_fisheye_arrived = False,
        rgb_frame = None, depth_frame = None\<rparr>
       (fs_frames fs)"

text \<open>
  \<^verbatim>\<open>stamp /= 1000.0; if(stamp - now > 1000000000.0) { warn once; stamp = now; }\<close>
  The result is the camera, the stamp in seconds and the warnings.
\<close>

definition clockCheck :: "'tf camera \<Rightarrow> real \<Rightarrow> real \<Rightarrow> 'tf camera \<times> real \<times> message list" where
  "clockCheck s now stamp_ms =
     (let stamp_s = stamp_ms / 1000 in
      if stamp_s - now > 1000000000
      then (s\<lparr>clockSyncWarningShown := True\<rparr>, now,
            if \<not> clockSyncWarningShown s then [ClockNotSyncWarn] else [])
      else (s, stamp_s, []))"

text \<open>
  \<^verbatim>\<open>SensorData\<close>: the two frames the images are made from, which camera model is attached and
  the stamp; the image conversions themselves, the sequence number and the odometry written
  to \<^verbatim>\<open>CameraInfo\<close> are not modelled. \<open>None\<close> is the record without images that
  \<^verbatim>\<open>SensorData()\<close> makes.
\<close>

record 'tf fused =
  image_frame :: "'tf frame option"
  second_frame :: "'tf frame option"
  stereo :: bool
  fused_stamp :: real

record 'tf sensor_data =
  sd_fused :: "'tf fused option"
  sd_imu :: "imu option"

definition makeData :: "'tf camera \<Rightarrow> 'tf scan \<Rightarrow> real \<Rightarrow> 'tf fused option \<times> message list" where
  "makeData s a stamp_s =
     (if is_rgb_arrived a \<and> is_depth_arrived a
      then (Some \<lparr>image_frame = rgb_frame a, second_frame = depth_frame a,
                  stereo = (ir s \<and> \<not> irDepth s), fused_stamp = stamp_s\<rparr>, [])
      else if is_left_fisheye_arrived a \<and> is_right_fisheye_arrived a
      then (Some \<lparr>image_frame = rgb_frame a, second_frame = depth_frame a,
                  stereo = True, fused_stamp = stamp_s\<rparr>, [])
      else (None, [NotReceivedDepthRgb]))"

text \<open>
  The loop that publishes the inertial readings between two images: \<open>keys\<close> are the stamps
  of the gyro entries from \<^verbatim>\<open>iterA\<close> up to \<^verbatim>\<open>iterB\<close>. It stops at the first empty reading.
\<close>

fun publishLoop ::
  "(real \<Rightarrow> 'tf \<Rightarrow> 'tf \<Rightarrow> 'tf) \<Rightarrow> 'tf camera \<Rightarrow> 'tf schedule \<Rightarrow> int \<Rightarrow> real list
     \<Rightarrow> 'tf camera \<times> 'tf schedule \<times> (imu \<times> real) list \<times> message list" where
  "publishLoop interpolate s sched maxWaitTimeMs [] = (s, sched, [], [])"
| "publishLoop interpolate s sched maxWaitTimeMs (k # ks) =
     (let r = getPoseAndIMU interpolate s sched k maxWaitTimeMs in
      case imu r of
        None \<Rightarrow> (cam r, rest r, [], warnings r)
      | Some imuTmp \<Rightarrow>
          (case publishLoop interpolate (cam r) (rest r) maxWaitTimeMs ks of
             (s', sched', events, ws) \<Rightarrow>
               (s', sched', (imuTmp, k / 1000) # events, warnings r @ ws)))"

record 'tf capture =
  cap_cam :: "'tf camera"
  cap_rest :: "'tf schedule"
  cap_data :: "'tf sensor_data"
  cap_events :: "(imu \<times> real) list"
  cap_log :: "message list"

text \<open>
  The second half of \<^verbatim>\<open>captureImage\<close>, from \<^verbatim>\<open>IMU imu;\<close> on. \<open>maxWaitTimeMs\<close> is the default
  argument of \<^verbatim>\<open>getPoseAndIMU\<close>, which the header declares. A failed \<^verbatim>\<open>UASSERT\<close> throws and
  is caught at the end of \<^verbatim>\<open>captureImage\<close>.
\<close>

definition attachIMU ::
  "(real \<Rightarrow> 'tf \<Rightarrow> 'tf \<Rightarrow> 'tf) \<Rightarrow> 'tf camera \<Rightarrow> 'tf schedule \<Rightarrow> int \<Rightarrow> 'tf fused option
     \<Rightarrow> real \<Rightarrow> message list \<Rightarrow> 'tf capture" where
  "attachIMU interpolate s sched maxWaitTimeMs fusedData stamp_s ws =
     (let imuStamp = stamp_s * 1000;
          r = getPoseAndIMU interpolate s sched imuStamp maxWaitTimeMs;
          s1 = cam r
      in
      if imu r \<noteq> None \<and> \<not> publishInterIMU s1 then
        \<lparr>cap_cam = s1, cap_rest = rest r,
         cap_data = \<lparr>sd_fused = fusedData, sd_imu = imu r\<rparr>,
         cap_events = [], cap_log = ws @ warnings r\<rparr>
      else if publishInterIMU s1 \<and> gyroBuffer s1 \<noteq> [] then
        (if lastImuStamp s1 > 0 then
           (if \<not> imuStamp > lastImuStamp s1 then
              \<lparr>cap_cam = s1, cap_rest = rest r,
               cap_data = \<lparr>sd_fused = fusedData, sd_imu = None\<rparr>,
               cap_events = [], cap_log = ws @ warnings r @ [FrameCallbackError]\<rparr>
            else
              let buf = gyroBuffer s1;
                  iterA = upper_bound buf (lastImuStamp s1);
                  iterB = lower_bound buf imuStamp;
                  iterA = (if iterA \<noteq> length buf then iterA + 1 else iterA);
                  iterB = (if iterB \<noteq> length buf then iterB + 1 else iterB);
                  keys = map fst (take (iterB - iterA) (drop iterA buf))
              in
              (case publishLoop interpolate s1 (rest r) maxWaitTimeMs keys of
                 (s2, sched2, events, ws2) \<Rightarrow>
                   \<lparr>cap_cam = s2\<lparr>lastImuStamp := imuStamp\<rparr>, cap_rest = sched2,
                    cap_data = \<lparr>sd_fused = fusedData, sd_imu = None\<rparr>,
                    cap_events = events, cap_log = ws @ warnings r @ ws2\<rparr>))
         else
           \<lparr>cap_cam = s1\<lparr>lastImuStamp := imuStamp\<rparr>, cap_rest = rest r,
            cap_data = \<lparr>sd_fused = fusedData, sd_imu = None\<rparr>,
            cap_events = [], cap_log = ws @ warnings r\<rparr>)
      else
        \<lparr>cap_cam = s1, cap_rest = rest r,
         cap_data = \<lparr>sd_fused = fusedData, sd_imu = None\<rparr>,
         cap_events = [], cap_log = ws @ warnings r\<rparr>)"

text \<open>
  The frame set the wait ends with: \<open>first\<close> is what \<^verbatim>\<open>syncer_->wait_for_frames(5000)\<close>
  gives (\<open>None\<close>: it throws), then the retry loop runs.
\<close>

definition awaitFrameset ::
  "'tf camera \<Rightarrow> 'tf frameset option \<Rightarrow> 'tf frameset option list \<Rightarrow> 'tf frameset option" where
  "awaitFrameset s first retries =
     (case first of
        None \<Rightarrow> None
      | Some fs0 \<Rightarrow> retryLoop (desiredFramesetSize s) fs0 retries)"

text \<open>What the \<^verbatim>\<open>catch\<close> clause leaves when a wait throws: the error is logged.\<close>

definition thrown :: "'tf camera \<Rightarrow> 'tf schedule \<Rightarrow> 'tf capture" where
  "thrown s sched =
     \<lparr>cap_cam = s, cap_rest = sched, cap_data = \<lparr>sd_fused = None, sd_imu = None\<rparr>,
      cap_events = [], cap_log = [FrameCallbackError]\<rparr>"

text \<open>\<open>now\<close> is \<^verbatim>\<open>UTimer::now()\<close>, the host time in seconds.\<close>

definition captureImage ::
  "(real \<Rightarrow> 'tf \<Rightarrow> 'tf \<Rightarrow> 'tf) \<Rightarrow> 'tf camera \<Rightarrow> 'tf schedule \<Rightarrow> int
     \<Rightarrow> 'tf frameset option \<Rightarrow> 'tf frameset option list \<Rightarrow> real \<Rightarrow> 'tf capture" where
  "captureImage interpolate s sched maxWaitTimeMs first retries now =
     (case awaitFrameset s first retries of
        None \<Rightarrow> thrown s sched
      | Some fs \<Rightarrow>
          if length (fs_frames fs) = desiredFramesetSize s then
            (let a = scan_frameset s fs in
             case clockCheck s now (scan_stamp a) of (s1, stamp_s, w1) \<Rightarrow>
               (case makeData s1 a stamp_s of (fusedData, w2) \<Rightarrow>
                  attachIMU interpolate s1 sched maxWaitTimeMs fusedData stamp_s (w1 @ w2)))
          else
            \<lparr>cap_cam = s, cap_rest = sched,
             cap_data = \<lparr>sd_fused = None, sd_imu = None\<rparr>,
             cap_events = [], cap_log = [MissingFrames (length (fs_frames fs))]\<rparr>)"

section \<open>Sessions\<close>

text \<open>
  What happens to a camera between two calls of \<^verbatim>\<open>init\<close>: the driver delivers frames, and
  the consumer looks up poses and inertial readings and captures images; the options are
  not changed. A session gives the camera at its end and everything that was logged.
\<close>

datatype 'tf call =
    Callback "'tf frame"
  | GetPoseAndIMU "'tf schedule" real int
  | CaptureImage "'tf schedule" int "'tf frameset option" "'tf frameset option list" real

fun perform ::
  "(real \<Rightarrow> 'tf \<Rightarrow> 'tf \<Rightarrow> 'tf) \<Rightarrow> 'tf camera \<Rightarrow> 'tf call \<Rightarrow> 'tf camera \<times> message list" where
  "perform interpolate s (Callback f) = (multiple_message_callback s f, [])"
| "perform interpolate s (GetPoseAndIMU sched t maxWaitTimeMs) =
     (let r = getPoseAndIMU interpolate s sched t maxWaitTimeMs in (cam r, warnings r))"
| "perform interpolate s (CaptureImage sched maxWaitTimeMs first retries now) =
     (let r = captureImage interpolate s sched maxWaitTimeMs first retries now
      in (cap_cam r, cap_log r))"

fun session ::
  "(real \<Rightarrow> 'tf \<Rightarrow> 'tf \<Rightarrow> 'tf) \<Rightarrow> 'tf camera \<Rightarrow> 'tf call list \<Rightarrow> 'tf camera \<times> message list" where
  "session interpolate s [] = (s, [])"
| "session interpolate s (c # cs) =
     (case perform interpolate s c of (s1, w1) \<Rightarrow>
        (case session interpolate s1 cs of (s2, w2) \<Rightarrow> (s2, w1 @ w2)))"

text \<open>The warnings behind the latch \<^verbatim>\<open>imuGlobalSyncWarningShown_\<close>.\<close>

fun is_range_warning :: "message \<Rightarrow> bool" where
  "is_range_warning (ImuEarliestWarn st) = True"
| "is_range_warning (ImuBetweenWarn st) = True"
| "is_range_warning m = False"

fun is_restamp_notice :: "message \<Rightarrow> bool" where
  "is_restamp_notice (ImuRestampNotice st) = True"
| "is_restamp_notice m = False"

definition count_where :: "(message \<Rightarrow> bool) \<Rightarrow> message list \<Rightarrow> nat" where
  "count_where P ws = length (filter P ws)"

section \<open>Auxiliary notions\<close>

text \<open>A sequence of inserts into one buffer.\<close>

definition push_all :: "'v buffer \<Rightarrow> (real \<times> 'v) list \<Rightarrow> 'v buffer" where
  "push_all buf es = foldl (\<lambda>b e. push_sample (fst e) (snd e) b) buf es"

text \<open>The stamps stored for a motion stream, in the order of the buffer.\<close>

definition stream_keys :: "stream_type \<Rightarrow> 'tf camera \<Rightarrow> real list" where
  "stream_keys st s =
     (if st = RS2_STREAM_GYRO then map fst (gyroBuffer s)
      else if st = RS2_STREAM_ACCEL then map fst (accBuffer s)
      else map fst (poseBuffer s))"

definition within_capacity :: "'tf camera \<Rightarrow> bool" where
  "within_capacity s =
     (length (gyroBuffer s) \<le> 1000 \<and> length (accBuffer s) \<le> 1000 \<and> length (poseBuffer s) \<le> 1000)"

text \<open>The camera as the constructor leaves it.\<close>

definition constructed :: "nat camera" where
  "constructed =
     \<lparr>gyroBuffer = [], accBuffer = [], poseBuffer = [], syncer = [], lastImuStamp = 0,
      clockSyncWarningShown = False, imuGlobalSyncWarningShown = False,
      ir = False, irDepth = True, odometryProvided = False, globalTimeSync = True,
      publishInterIMU = False, isL500 = False\<rparr>"

text \<open>A frame of a stream with a stamp and a reading, for the examples.\<close>

definition a_frame :: "stream_type \<Rightarrow> real \<Rightarrow> vec3 \<Rightarrow> nat frame" where
  "a_frame st t v =
     \<lparr>stream_of = st, timestamp_of = t, reading_of = v, pose_of = 0, confidence_of = 0\<rparr>"

text \<open>
  The example of the specification: inertial samples at 100 and 200, and two poses with
  confidences 2 and 3; \<open>sync\<close> is the strict time sync option.
\<close>

definition example_cam :: "bool \<Rightarrow> nat camera" where
  "example_cam sync =
     constructed\<lparr>gyroBuffer := [(100, (0, 0, 1)), (200, (0, 0, 3))],
                 accBuffer := [(100, (1, 0, 0)), (200, (3, 0, 0))],
                 poseBuffer := [(100, (7, 2)), (200, (9, 3))],
                 odometryProvided := True, globalTimeSync := sync\<rparr>"

text \<open>A stand-in for \<^verbatim>\<open>Transform::interpolate\<close> in the examples: it gives the second transform.\<close>

definition example_interpolate :: "real \<Rightarrow> nat \<Rightarrow> nat \<Rightarrow> nat" where
  "example_interpolate t a b = b"

text \<open>The two latches and the time sync option of a camera.\<close>

definition latches :: "'tf camera \<Rightarrow> bool \<times> bool \<times> bool" where
  "latches s = (clockSyncWarningShown s, imuGlobalSyncWarningShown s, globalTimeSync s)"

fun is_clock_warning :: "message \<Rightarrow> bool" where
  "is_clock_warning ClockNotSyncWarn = True"
| "is_clock_warning m = False"

text \<open>
  A one-shot latch over a stretch of a session: \<open>b\<close> is the latch before, \<open>b'\<close> after,
  \<open>n\<close> the number of times its warning was logged. A latch that is set stays set and
  silences the warning; a warning that is logged sets the latch.
\<close>

definition once_step :: "bool \<Rightarrow> bool \<Rightarrow> nat \<Rightarrow> bool" where
  "once_step b b' n = ((b \<longrightarrow> b' \<and> n = 0) \<and> n \<le> 1 \<and> (0 < n \<longrightarrow> b'))"

text \<open>
  What a stretch of a session from \<open>s\<close> to \<open>s'\<close> with log \<open>ws\<close> does to the latches: the
  clock latch is one-shot; the inertial latch is never cleared, is left alone under time
  sync, and is one-shot for both of its warnings without time sync.
\<close>

definition session_step :: "'tf camera \<Rightarrow> message list \<Rightarrow> 'tf camera \<Rightarrow> bool" where
  "session_step s ws s' =
     (globalTimeSync s' = globalTimeSync s
      \<and> once_step (clockSyncWarningShown s) (clockSyncWarningShown s')
           (count_where is_clock_warning ws)
      \<and> (imuGlobalSyncWarningShown s \<longrightarrow> imuGlobalSyncWarningShown s')
      \<and> (globalTimeSync s \<longrightarrow> imuGlobalSyncWarningShown s' = imuGlobalSyncWarningShown s)
      \<and> (\<not> globalTimeSync s \<longrightarrow>
           once_step (imuGlobalSyncWarningShown s) (imuGlobalSyncWarningShown s')
             (count_where is_range_warning ws)
           \<and> once_step (imuGlobalSyncWarningShown s) (imuGlobalSyncWarningShown s')
               (count_where is_restamp_notice ws)))"

text \<open>
  A property of the buffers alone: the callbacks keep it, and it does not look at the
  latches or at \<^verbatim>\<open>lastImuStamp_\<close>.
\<close>

definition buffer_invariant :: "('tf camera \<Rightarrow> bool) \<Rightarrow> bool" where
  "buffer_invariant I =
     ((\<forall>s f. I s \<longrightarrow> I (multiple_message_callback s f))
      \<and> (\<forall>s b. I (s\<lparr>imuGlobalSyncWarningShown := b\<rparr>) = I s)
      \<and> (\<forall>s b. I (s\<lparr>clockSyncWarningShown := b\<rparr>) = I s)
      \<and> (\<forall>s t. I (s\<lparr>lastImuStamp := t\<rparr>) = I s))"

definition ordered_buffers :: "'tf camera \<Rightarrow> bool" where
  "ordered_buffers s =
     (strictly_ordered (gyroBuffer s) \<and> strictly_ordered (accBuffer s)
      \<and> strictly_ordered (poseBuffer s))"

text \<open>The example of the specification: a colour frame at 500 and a depth frame at 503.\<close>

definition example_frameset :: "nat frameset" where
  "example_frameset =
     \<lparr>fs_timestamp = 500,
      fs_frames = [a_frame RS2_STREAM_COLOR 500 (0, 0, 0), a_frame RS2_STREAM_DEPTH 503 (0, 0, 0)]\<rparr>"

text \<open>A frame set that lacks its depth frame.\<close>

definition lone_frameset :: "nat frameset" where
  "lone_frameset =
     \<lparr>fs_timestamp = 500, fs_frames = [a_frame RS2_STREAM_COLOR 500 (0, 0, 0)]\<rparr>"

text \<open>A frame set stamped far in the future of a host clock at 1700000000 seconds.\<close>

definition future_frameset :: "nat frameset" where
  "future_frameset =
     \<lparr>fs_timestamp = 5000000000000,
      fs_frames = [a_frame RS2_STREAM_COLOR 5000000000000 (0, 0, 0),
                   a_frame RS2_STREAM_DEPTH 5000000000003 (0, 0, 0)]\<rparr>"

section \<open>Properties of the buffers\<close>

lemma length_map_insert_le: "length (map_insert k v buf) \<le> Suc (length buf)"
  by (induction buf) auto

lemma map_insert_nonempty: "map_insert k v buf \<noteq> []"
  by (cases buf) auto

lemma length_push_sample: "length buf \<le> 1000 \<Longrightarrow> length (push_sample k v buf) \<le> 1000"
  using length_map_insert_le [of k v buf] by (auto simp: push_sample_def Let_def)

lemma push_sample_nonempty: "push_sample k v buf \<noteq> []"
proof -
  have "map_insert k v buf \<noteq> []" by (rule map_insert_nonempty)
  moreover have "length (map_insert k v buf) > 1000 \<Longrightarrow> tl (map_insert k v buf) \<noteq> []"
    by (cases "map_insert k v buf") auto
  ultimately show ?thesis by (simp add: push_sample_def Let_def)
qed

lemma keys_map_insert_fresh:
  "k \<notin> set (map fst buf) \<Longrightarrow> map fst (map_insert k v buf) = insort k (map fst buf)"
  by (induction buf) auto

lemma length_map_insert_fresh:
  "k \<notin> set (map fst buf) \<Longrightarrow> length (map_insert k v buf) = Suc (length buf)"
  by (induction buf) auto

lemma map_insert_present:
  "strictly_ordered buf \<Longrightarrow> k \<in> set (map fst buf) \<Longrightarrow> map_insert k v buf = buf"
  unfolding strictly_ordered_def
  by (induction buf) (auto simp: rev_image_eqI)

lemma set_map_insert_fresh:
  "k \<notin> set (map fst buf) \<Longrightarrow> set (map_insert k v buf) = insert (k, v) (set buf)"
  by (induction buf) auto

lemma set_map_insert_subset: "set (map_insert k v buf) \<subseteq> insert (k, v) (set buf)"
  by (induction buf) auto

lemma strictly_ordered_map_insert:
  "strictly_ordered buf \<Longrightarrow> strictly_ordered (map_insert k v buf)"
  unfolding strictly_ordered_def
proof (induction buf)
  case Nil
  then show ?case by simp
next
  case (Cons e es)
  have sub: "\<And>x. x \<in> set (map_insert k v es) \<Longrightarrow> x = (k, v) \<or> x \<in> set es"
    using set_map_insert_subset [of k v es] by auto
  show ?case
  proof (cases "k < fst e \<or> k = fst e")
    case True
    with Cons.prems show ?thesis by auto
  next
    case False
    then have "fst e < k" by simp
    then have "\<forall>x \<in> set (map_insert k v es). fst e < fst x"
      using sub Cons.prems by fastforce
    with False Cons show ?thesis by simp
  qed
qed

lemma strictly_ordered_tl: "strictly_ordered buf \<Longrightarrow> strictly_ordered (tl buf)"
  unfolding strictly_ordered_def by (cases buf) auto

lemma strictly_ordered_push_sample:
  "strictly_ordered buf \<Longrightarrow> strictly_ordered (push_sample k v buf)"
  by (simp add: push_sample_def Let_def strictly_ordered_map_insert strictly_ordered_tl)

lemma insort_below: "sorted ys \<Longrightarrow> \<forall>y \<in> set ys. t \<le> y \<Longrightarrow> insort t ys = t # ys"
  by (cases ys) auto

lemma tl_insort_drop:
  "sorted xs \<Longrightarrow> tl (insort t (drop d xs)) = drop (Suc d) (insort (t::real) xs)"
proof (induction xs arbitrary: d)
  case Nil
  then show ?case by simp
next
  case (Cons x xs)
  show ?case
  proof (cases "t \<le> x")
    case True
    have "\<forall>y \<in> set (x # xs). t \<le> y"
      using Cons.prems True by auto
    then have "\<forall>y \<in> set (drop d (x # xs)). t \<le> y"
      by (meson in_set_dropD)
    moreover have "sorted (drop d (x # xs))"
      using Cons.prems sorted_wrt_drop by blast
    ultimately have "insort t (drop d (x # xs)) = t # drop d (x # xs)"
      by (rule insort_below [rotated])
    with True show ?thesis by simp
  next
    case False
    with Cons show ?thesis by (cases d) auto
  qed
qed

lemma foldr_insort_single: "foldr insort xs [t] = insort (t::real) (foldr insort xs [])"
  by (induction xs) (simp_all add: insort_left_comm)

lemma sort_snoc: "sort (xs @ [t]) = insort (t::real) (sort xs)"
  by (simp add: sort_key_def foldr_insort_single)

lemma keys_push_all:
  "distinct (map fst es) \<Longrightarrow>
   map fst (push_all [] es) = drop (length es - 1000) (sort (map fst es))"
proof (induction es rule: rev_induct)
  case Nil
  then show ?case by (simp add: push_all_def)
next
  case (snoc e es)
  let ?b = "push_all [] es"
  let ?ks = "sort (map fst es)"
  have IH: "map fst ?b = drop (length es - 1000) ?ks"
    using snoc by simp
  have fresh: "fst e \<notin> set (map fst ?b)"
    using snoc.prems IH by (auto dest!: in_set_dropD)
  have keys: "map fst (map_insert (fst e) (snd e) ?b) = insort (fst e) (map fst ?b)"
    using fresh by (rule keys_map_insert_fresh)
  have len: "length (map_insert (fst e) (snd e) ?b) = Suc (length ?b)"
    using fresh by (rule length_map_insert_fresh)
  have lenb: "length ?b = length es - (length es - 1000)"
    using arg_cong [OF IH, of length] by simp
  have step: "push_all [] (es @ [e]) = push_sample (fst e) (snd e) ?b"
    by (simp add: push_all_def)
  show ?case
  proof (cases "length es < 1000")
    case True
    then show ?thesis
      using keys len lenb IH by (simp add: step push_sample_def Let_def sort_snoc)
  next
    case False
    then have "length (map_insert (fst e) (snd e) ?b) > 1000"
      using len lenb by simp
    then have "map fst (push_all [] (es @ [e])) = tl (insort (fst e) (map fst ?b))"
      using keys by (simp add: step push_sample_def Let_def map_tl)
    also have "\<dots> = drop (Suc (length es - 1000)) (insort (fst e) ?ks)"
      by (simp add: IH tl_insort_drop)
    also have "Suc (length es - 1000) = length (es @ [e]) - 1000"
      using False by simp
    finally show ?thesis by (simp add: sort_snoc)
  qed
qed


lemma within_capacity_callback:
  "within_capacity s \<Longrightarrow> within_capacity (multiple_message_callback s f)"
  by (auto simp: within_capacity_def multiple_message_callback_def imu_callback_def
      pose_callback_def frame_callback_def length_push_sample split: stream_type.splits)

lemma within_capacity_foldl:
  "within_capacity s \<Longrightarrow> within_capacity (foldl multiple_message_callback s fs)"
  by (induction fs arbitrary: s) (simp_all add: within_capacity_callback)

lemma odometryProvided_callback [simp]:
  "odometryProvided (multiple_message_callback s f) = odometryProvided s"
  by (simp add: multiple_message_callback_def imu_callback_def pose_callback_def
      frame_callback_def split: stream_type.splits)

lemma callback_gyro:
  "stream_of f = RS2_STREAM_GYRO \<Longrightarrow>
   multiple_message_callback s f
     = s\<lparr>gyroBuffer := push_sample (timestamp_of f) (reading_of f) (gyroBuffer s)\<rparr>"
  by (simp add: multiple_message_callback_def imu_callback_def)

lemma callback_acc:
  "stream_of f = RS2_STREAM_ACCEL \<Longrightarrow>
   multiple_message_callback s f
     = s\<lparr>accBuffer := push_sample (timestamp_of f) (reading_of f) (accBuffer s)\<rparr>"
  by (simp add: multiple_message_callback_def imu_callback_def)

lemma callback_pose:
  "stream_of f = RS2_STREAM_POSE \<Longrightarrow> odometryProvided s \<Longrightarrow>
   multiple_message_callback s f
     = s\<lparr>poseBuffer := push_sample (timestamp_of f) (pose_of f, confidence_of f) (poseBuffer s)\<rparr>"
  by (simp add: multiple_message_callback_def pose_callback_def)

lemma gyro_foldl:
  "\<forall>f \<in> set fs. stream_of f = RS2_STREAM_GYRO \<Longrightarrow>
   gyroBuffer (foldl multiple_message_callback s fs)
     = push_all (gyroBuffer s) (map (\<lambda>f. (timestamp_of f, reading_of f)) fs)"
  by (induction fs arbitrary: s) (simp_all add: push_all_def callback_gyro)

lemma acc_foldl:
  "\<forall>f \<in> set fs. stream_of f = RS2_STREAM_ACCEL \<Longrightarrow>
   accBuffer (foldl multiple_message_callback s fs)
     = push_all (accBuffer s) (map (\<lambda>f. (timestamp_of f, reading_of f)) fs)"
  by (induction fs arbitrary: s) (simp_all add: push_all_def callback_acc)

lemma pose_foldl:
  "\<forall>f \<in> set fs. stream_of f = RS2_STREAM_POSE \<Longrightarrow> odometryProvided s \<Longrightarrow>
   poseBuffer (foldl multiple_message_callback s fs)
     = push_all (poseBuffer s) (map (\<lambda>f. (timestamp_of f, (pose_of f, confidence_of f))) fs)"
  by (induction fs arbitrary: s) (simp_all add: push_all_def callback_pose)

lemma stream_keys_foldl:
  assumes "st = RS2_STREAM_GYRO \<or> st = RS2_STREAM_ACCEL \<or> (st = RS2_STREAM_POSE \<and> odometryProvided s)"
    and "\<forall>f \<in> set fs. stream_of f = st"
    and "distinct (map timestamp_of fs)"
    and "stream_keys st s = []"
  shows "stream_keys st (foldl multiple_message_callback s fs)
           = drop (length fs - 1000) (sort (map timestamp_of fs))"
proof -
  have k: "\<And>g. map fst (push_all [] (map (\<lambda>f. (timestamp_of f, g f)) fs))
              = drop (length fs - 1000) (sort (map timestamp_of fs))"
    using keys_push_all [of "map (\<lambda>f. (timestamp_of f, g f)) fs" for g] assms(3)
    by (simp add: comp_def)
  from assms(1) show ?thesis
  proof (elim disjE conjE)
    assume "st = RS2_STREAM_GYRO"
    then show ?thesis using assms(2,4) k [of reading_of]
      by (simp add: stream_keys_def gyro_foldl)
  next
    assume "st = RS2_STREAM_ACCEL"
    then show ?thesis using assms(2,4) k [of reading_of]
      by (simp add: stream_keys_def acc_foldl)
  next
    assume "st = RS2_STREAM_POSE" "odometryProvided s"
    then show ?thesis using assms(2,4) k [of "\<lambda>f. (pose_of f, confidence_of f)"]
      by (simp add: stream_keys_def pose_foldl)
  qed
qed

lemma evict_single:
  assumes "strictly_ordered buf" "length buf = 1000" "k \<notin> set (map fst buf)"
  shows "push_sample k v buf = tl (map_insert k v buf)"
    and "length (push_sample k v buf) = 1000"
    and "set (push_sample k v buf) = insert (k, v) (set buf) - {hd (map_insert k v buf)}"
    and "\<forall>e \<in> set (push_sample k v buf). fst (hd (map_insert k v buf)) < fst e"
proof -
  let ?m = "map_insert k v buf"
  have len: "length ?m = 1001" using assms(2,3) by (simp add: length_map_insert_fresh)
  then show p: "push_sample k v buf = tl ?m" by (simp add: push_sample_def Let_def)
  show "length (push_sample k v buf) = 1000" using len by (simp add: p)
  obtain e es where m: "?m = e # es" using len by (cases ?m) auto
  have so: "strictly_ordered ?m" using assms(1) by (rule strictly_ordered_map_insert)
  then have lt: "\<forall>x \<in> set es. fst e < fst x" by (auto simp: m strictly_ordered_def)
  then show "\<forall>e \<in> set (push_sample k v buf). fst (hd ?m) < fst e" by (simp add: p m)
  have "e \<notin> set es" using lt by auto
  then have "set es = set ?m - {e}" by (auto simp: m)
  then show "set (push_sample k v buf) = insert (k, v) (set buf) - {hd ?m}"
    using assms(3) by (simp add: p m set_map_insert_fresh [symmetric])
qed


text \<open>
  C3. (a) Whatever frames the callbacks receive, none of the gyro, accel and pose buffers
  grows beyond 1000 entries. (b) An insert of a new stamp into a full buffer removes exactly
  one entry, the one with the smallest stamp. (c) After 1000 + n frames with distinct stamps
  for one stream, starting from an empty buffer, the buffer holds the 1000 largest stamps:
  the n smallest are gone.
\<close>

theorem buffers_bounded_evict_oldest:
  "(within_capacity s \<longrightarrow> within_capacity (foldl multiple_message_callback s fs))
   \<and> (strictly_ordered buf \<and> length buf = 1000 \<and> k \<notin> set (map fst buf) \<longrightarrow>
        push_sample k v buf = tl (map_insert k v buf)
        \<and> length (push_sample k v buf) = 1000
        \<and> set (push_sample k v buf) = insert (k, v) (set buf) - {hd (map_insert k v buf)}
        \<and> (\<forall>e \<in> set (push_sample k v buf). fst (hd (map_insert k v buf)) < fst e))
   \<and> ((st = RS2_STREAM_GYRO \<or> st = RS2_STREAM_ACCEL
          \<or> (st = RS2_STREAM_POSE \<and> odometryProvided s0))
        \<and> (\<forall>f \<in> set gs. stream_of f = st) \<and> distinct (map timestamp_of gs)
        \<and> stream_keys st s0 = [] \<and> length gs = 1000 + n \<longrightarrow>
        stream_keys st (foldl multiple_message_callback s0 gs)
          = drop n (sort (map timestamp_of gs))
        \<and> (\<forall>t \<in> set (take n (sort (map timestamp_of gs))).
              t \<notin> set (stream_keys st (foldl multiple_message_callback s0 gs))))"
proof (intro conjI impI)
  assume "within_capacity s"
  then show "within_capacity (foldl multiple_message_callback s fs)"
    by (rule within_capacity_foldl)
next
  assume a: "strictly_ordered buf \<and> length buf = 1000 \<and> k \<notin> set (map fst buf)"
  then show "push_sample k v buf = tl (map_insert k v buf)"
    by (simp add: evict_single(1))
  from a show "length (push_sample k v buf) = 1000"
    by (simp add: evict_single(2))
  from a show "set (push_sample k v buf) = insert (k, v) (set buf) - {hd (map_insert k v buf)}"
    by (intro evict_single(3)) simp_all
  from a show "\<forall>e \<in> set (push_sample k v buf). fst (hd (map_insert k v buf)) < fst e"
    by (intro evict_single(4)) simp_all
next
  assume a: "(st = RS2_STREAM_GYRO \<or> st = RS2_STREAM_ACCEL
                \<or> (st = RS2_STREAM_POSE \<and> odometryProvided s0))
             \<and> (\<forall>f \<in> set gs. stream_of f = st) \<and> distinct (map timestamp_of gs)
             \<and> stream_keys st s0 = [] \<and> length gs = 1000 + n"
  then have "stream_keys st (foldl multiple_message_callback s0 gs)
               = drop (length gs - 1000) (sort (map timestamp_of gs))"
    by (intro stream_keys_foldl) simp_all
  with a show keys: "stream_keys st (foldl multiple_message_callback s0 gs)
                       = drop n (sort (map timestamp_of gs))"
    by simp
  have "distinct (sort (map timestamp_of gs))" using a by simp
  then have "set (take n (sort (map timestamp_of gs)))
               \<inter> set (drop n (sort (map timestamp_of gs))) = {}"
    by (rule set_take_disj_set_drop_if_distinct) simp
  then show "\<forall>t \<in> set (take n (sort (map timestamp_of gs))).
               t \<notin> set (stream_keys st (foldl multiple_message_callback s0 gs))"
    by (auto simp: keys)
qed

theorem buffers_bounded_evict_oldest_witness:
  "within_capacity constructed
   \<and> within_capacity
       (foldl multiple_message_callback constructed [a_frame RS2_STREAM_GYRO 1 (0, 0, 1)])
   \<and> length (map (\<lambda>i. (real i, ())) [0..<1000]) = 1000
   \<and> push_sample 1000 () (map (\<lambda>i. (real i, ())) [0..<1000])
       = tl (map_insert 1000 () (map (\<lambda>i. (real i, ())) [0..<1000]))
   \<and> length (push_sample 1000 () (map (\<lambda>i. (real i, ())) [0..<1000])) = 1000
   \<and> stream_keys RS2_STREAM_GYRO
       (foldl multiple_message_callback constructed
          (map (\<lambda>i. a_frame RS2_STREAM_GYRO (real i) (0, 0, 1)) [0..<1001]))
       = drop 1 (sort (map real [0..<1001]))"
proof -
  let ?buf = "map (\<lambda>i. (real i, ())) [0..<1000]"
  let ?gs = "map (\<lambda>i. a_frame RS2_STREAM_GYRO (real i) (0, 0, 1)) [0..<1001]"
  have h1: "within_capacity constructed"
    by (simp add: within_capacity_def constructed_def)
  have h2: "strictly_ordered ?buf \<and> length ?buf = 1000 \<and> 1000 \<notin> set (map fst ?buf)"
    by (auto simp: strictly_ordered_def comp_def sorted_wrt_map)
  have ts: "map timestamp_of ?gs = map real [0..<1001]"
    by (simp add: a_frame_def comp_def)
  have h3: "(RS2_STREAM_GYRO = RS2_STREAM_GYRO \<or> RS2_STREAM_GYRO = RS2_STREAM_ACCEL
              \<or> (RS2_STREAM_GYRO = RS2_STREAM_POSE \<and> odometryProvided constructed))
            \<and> (\<forall>f \<in> set ?gs. stream_of f = RS2_STREAM_GYRO) \<and> distinct (map timestamp_of ?gs)
            \<and> stream_keys RS2_STREAM_GYRO constructed = [] \<and> length ?gs = 1000 + 1"
    unfolding ts by (auto simp: a_frame_def stream_keys_def constructed_def distinct_map inj_on_def)
  show ?thesis
    using h1 h2 h3
      buffers_bounded_evict_oldest [of constructed "[a_frame RS2_STREAM_GYRO 1 (0, 0, 1)]"
        ?buf 1000 "()" RS2_STREAM_GYRO constructed ?gs 1]
    unfolding ts by blast
qed

section \<open>Properties of getPoseAndIMU\<close>

lemma waitLoop_idle:
  "\<not> (maxW > 0 \<and> fst (last (sel s)) < stamp \<and> n < maxW) \<Longrightarrow>
   waitLoop sel maxW stamp n s sched = (s, sched)"
  by (subst waitLoop.simps) auto

lemma waitLoop_caught_up:
  "\<not> fst (last (sel s)) < stamp \<Longrightarrow> waitLoop sel maxW stamp n s sched = (s, sched)"
  by (rule waitLoop_idle) simp

lemma waitLoop_no_arrivals: "waitLoop sel maxW stamp n s [] = (s, [])"
proof (induction "nat (maxW - n)" arbitrary: n)
  case 0
  then show ?case by (subst waitLoop.simps) (simp add: uSleep_def)
next
  case (Suc m)
  then have "m = nat (maxW - (n + 1))" by simp
  then have "waitLoop sel maxW stamp (n + 1) s [] = (s, [])" by (rule Suc.hyps(1))
  then show ?case by (subst waitLoop.simps) (simp add: uSleep_def)
qed

lemma strictly_ordered_append:
  "strictly_ordered (pre @ e # post) \<Longrightarrow>
   (\<forall>x \<in> set pre. fst x < fst e) \<and> (\<forall>x \<in> set post. fst e < fst x)"
  by (auto simp: strictly_ordered_def sorted_wrt_append)

lemma last_key_greatest:
  "strictly_ordered buf \<Longrightarrow> e \<in> set buf \<Longrightarrow> fst e \<le> fst (last buf)"
proof -
  assume so: "strictly_ordered buf" and e: "e \<in> set buf"
  then obtain pre post where buf: "buf = pre @ e # post" by (meson split_list)
  show ?thesis
  proof (cases post)
    case Nil
    then show ?thesis by (simp add: buf)
  next
    case (Cons p ps)
    then have "last buf \<in> set post" by (simp add: buf)
    then show ?thesis using strictly_ordered_append [of pre e post] so buf by fastforce
  qed
qed

lemma lower_bound_at:
  "(\<forall>x \<in> set pre. fst x < stamp) \<Longrightarrow> stamp \<le> fst e \<Longrightarrow>
   lower_bound (pre @ e # post) stamp = length pre"
  by (simp add: lower_bound_def)

lemma bracket_first: "stamp \<le> fst e \<Longrightarrow> bracket (e # post) stamp = (0, 0)"
  using lower_bound_at [of "[]" stamp e post] by (simp add: bracket_def)

lemma bracket_inner:
  "(\<forall>x \<in> set (pre @ [a]). fst x < stamp) \<Longrightarrow> stamp \<le> fst b \<Longrightarrow>
   bracket (pre @ a # b # post) stamp = (length pre, Suc (length pre))"
  using lower_bound_at [of "pre @ [a]" stamp b post] by (simp add: bracket_def)

lemma lerp_one: "lerp 1 a b = b"
  by (cases a, cases b) (simp add: lerp_def)

lemma lerp_zero: "lerp 0 a b = a"
  by (cases a, cases b) (simp add: lerp_def)

text \<open>Between two neighbouring entries the block interpolates linearly.\<close>

lemma interpolateIMU_between:
  assumes buf: "imuBuffer st s = pre @ (t0, v0) # (t1, v1) # post"
    and so: "strictly_ordered (imuBuffer st s)"
    and lo: "t0 < stamp" and hi: "stamp \<le> t1"
  shows "interpolateIMU st s sched stamp maxW
           = (s, sched, Some (lerp ((stamp - t0) / (t1 - t0)) v0 v1), [])"
proof -
  have "fst (t1, v1) \<le> fst (last (imuBuffer st s))"
    using so by (rule last_key_greatest) (simp add: buf)
  then have w: "waitLoop (imuBuffer st) maxW stamp 0 s sched = (s, sched)"
    using hi by (intro waitLoop_caught_up) simp
  have "\<forall>x \<in> set pre. fst x < t0"
    using strictly_ordered_append [of pre "(t0, v0)" "(t1, v1) # post"] so buf by simp
  then have "\<forall>x \<in> set (pre @ [(t0, v0)]). fst x < stamp" using lo by auto
  then have br: "bracket (imuBuffer st s) stamp = (length pre, Suc (length pre))"
    unfolding buf using hi by (intro bracket_inner) simp_all
  have a: "imuBuffer st s ! length pre = (t0, v0)" by (simp add: buf)
  have b: "imuBuffer st s ! Suc (length pre) = (t1, v1)" by (simp add: buf nth_append)
  have nl: "\<not> fst (last (imuBuffer st s)) < stamp"
    using \<open>fst (t1, v1) \<le> fst (last (imuBuffer st s))\<close> hi by simp
  show ?thesis
    using lo hi nl by (simp add: interpolateIMU_def w br a b Let_def)
qed

text \<open>At the stamp of a stored entry the block gives the value of that entry.\<close>

lemma interpolateIMU_exact:
  assumes so: "strictly_ordered (imuBuffer st s)"
    and mem: "(stamp, v) \<in> set (imuBuffer st s)"
  shows "interpolateIMU st s sched stamp maxW = (s, sched, Some v, [])"
proof -
  obtain pre post where buf: "imuBuffer st s = pre @ (stamp, v) # post"
    using mem by (meson split_list)
  have "fst (stamp, v) \<le> fst (last (imuBuffer st s))"
    using so mem by (rule last_key_greatest)
  then have nl: "\<not> fst (last (imuBuffer st s)) < stamp" by simp
  then have w: "waitLoop (imuBuffer st) maxW stamp 0 s sched = (s, sched)"
    by (rule waitLoop_caught_up)
  have below: "\<forall>x \<in> set pre. fst x < stamp"
    using strictly_ordered_append [of pre "(stamp, v)" post] so buf by simp
  show ?thesis
  proof (cases pre rule: rev_cases)
    case Nil
    then have "bracket (imuBuffer st s) stamp = (0, 0)"
      by (simp add: buf bracket_first)
    then show ?thesis using nl Nil by (simp add: interpolateIMU_def w buf Let_def)
  next
    case (snoc pre' a)
    have "bracket (pre' @ a # (stamp, v) # post) stamp = (length pre', Suc (length pre'))"
      using below snoc by (intro bracket_inner) simp_all
    then have br: "bracket (imuBuffer st s) stamp = (length pre', Suc (length pre'))"
      by (simp add: buf snoc)
    have a: "imuBuffer st s ! length pre' = a" by (simp add: buf snoc)
    have b: "imuBuffer st s ! Suc (length pre') = (stamp, v)"
      by (simp add: buf snoc nth_append)
    have lt: "fst a < stamp" using below snoc by simp
    then have "(stamp - fst a) / (stamp - fst a) = 1" by simp
    then show ?thesis
      using nl lt by (simp add: interpolateIMU_def w br a b Let_def lerp_one)
  qed
qed


text \<open>Before the earliest entry: no pose; no reading under time sync, the latest one without.\<close>

lemma interpolateIMU_before:
  assumes so: "strictly_ordered (imuBuffer st s)"
    and ne: "imuBuffer st s \<noteq> []"
    and lt: "stamp < fst (hd (imuBuffer st s))"
  shows "interpolateIMU st s sched stamp maxW =
           (if globalTimeSync s
            then (s, sched, None, if imuGlobalSyncWarningShown s then [] else [ImuEarliestWarn st])
            else (s\<lparr>imuGlobalSyncWarningShown := True\<rparr>, sched, Some (snd (last (imuBuffer st s))),
                  if imuGlobalSyncWarningShown s then []
                  else [ImuEarliestWarn st, ImuRestampNotice st]))"
proof -
  obtain e es where buf: "imuBuffer st s = e # es" using ne by (cases "imuBuffer st s") auto
  have "fst e \<le> fst (last (imuBuffer st s))"
    using so by (rule last_key_greatest) (simp add: buf)
  then have nl: "\<not> fst (last (imuBuffer st s)) < stamp" using lt buf by simp
  then have w: "waitLoop (imuBuffer st) maxW stamp 0 s sched = (s, sched)"
    by (rule waitLoop_caught_up)
  have br: "bracket (imuBuffer st s) stamp = (0, 0)"
    using lt by (simp add: buf bracket_first)
  have a0: "imuBuffer st s ! 0 = hd (imuBuffer st s)" by (simp add: buf)
  show ?thesis
    using nl lt by (simp add: interpolateIMU_def w br Let_def a0)
qed

lemma interpolatePose_before:
  assumes so: "strictly_ordered (poseBuffer s)"
    and ne: "poseBuffer s \<noteq> []"
    and lt: "stamp < fst (hd (poseBuffer s))"
  shows "interpolatePose ip s sched stamp maxW = (s, sched, None, 0, [PoseEarliestWarn])"
proof -
  obtain e es where buf: "poseBuffer s = e # es" using ne by (cases "poseBuffer s") auto
  have "fst e \<le> fst (last (poseBuffer s))"
    using so by (rule last_key_greatest) (simp add: buf)
  then have nl: "\<not> fst (last (poseBuffer s)) < stamp" using lt buf by simp
  then have w: "waitLoop poseBuffer maxW stamp 0 s sched = (s, sched)"
    by (rule waitLoop_caught_up)
  have br: "bracket (poseBuffer s) stamp = (0, 0)"
    using lt by (simp add: buf bracket_first)
  have a0: "poseBuffer s ! 0 = hd (poseBuffer s)" by (simp add: buf)
  show ?thesis
    using nl lt by (simp add: interpolatePose_def w br Let_def a0)
qed

text \<open>Behind the latest entry after the wait: the block gives nothing, in both modes.\<close>

lemma interpolateIMU_behind:
  assumes "waitLoop (imuBuffer st) maxW stamp 0 s sched = (s1, sched1)"
    and "fst (last (imuBuffer st s1)) < stamp"
  shows "interpolateIMU st s sched stamp maxW
           = (s1, sched1, None, if maxW > 0 then [ImuWaitWarn st] else [])"
  using assms by (simp add: interpolateIMU_def Let_def)

lemma interpolatePose_no_arrivals:
  "\<exists>p c ws. interpolatePose ip s [] stamp maxW = (s, [], p, c, ws)"
  by (simp add: interpolatePose_def waitLoop_no_arrivals Let_def split: prod.splits)

lemma getPoseAndIMU_no_arrivals:
  assumes "accBuffer s \<noteq> []" "gyroBuffer s \<noteq> []"
    and "interpolateIMU RS2_STREAM_ACCEL s [] stamp maxW = (s2, sched2, accV, w2)"
  shows "imu (getPoseAndIMU ip s [] stamp maxW) =
           (case accV of None \<Rightarrow> None
            | Some a \<Rightarrow> (case fst (snd (snd (interpolateIMU RS2_STREAM_GYRO s2 sched2 stamp maxW))) of
                 None \<Rightarrow> None | Some g \<Rightarrow> Some (IMU g a)))"
proof -
  obtain p c ws where "interpolatePose ip s [] stamp maxW = (s, [], p, c, ws)"
    using interpolatePose_no_arrivals by blast
  then show ?thesis
    using assms by (simp add: getPoseAndIMU_def split: prod.splits option.splits)
qed



lemma interpolateIMU_two:
  assumes buf: "imuBuffer st s = [(t0, v0), (t1, v1)]"
    and "t0 < t1" "0 \<le> f" "f \<le> 1"
  shows "interpolateIMU st s sched (t0 + f * (t1 - t0)) maxW = (s, sched, Some (lerp f v0 v1), [])"
proof -
  have so: "strictly_ordered (imuBuffer st s)"
    using assms by (simp add: strictly_ordered_def)
  show ?thesis
  proof (cases "f = 0")
    case True
    have "interpolateIMU st s sched t0 maxW = (s, sched, Some v0, [])"
      using so by (rule interpolateIMU_exact) (simp add: buf)
    then show ?thesis using True by (simp add: lerp_zero)
  next
    case False
    then have pos: "0 < f * (t1 - t0)" using assms by simp
    have "f * (t1 - t0) \<le> 1 * (t1 - t0)"
      using assms by (intro mult_right_mono) simp_all
    then have hi: "t0 + f * (t1 - t0) \<le> t1" by simp
    have b: "imuBuffer st s = [] @ (t0, v0) # (t1, v1) # []" by (simp add: buf)
    have lo: "t0 < t0 + f * (t1 - t0)" using pos by simp
    have "interpolateIMU st s sched (t0 + f * (t1 - t0)) maxW
        = (s, sched, Some (lerp ((t0 + f * (t1 - t0) - t0) / (t1 - t0)) v0 v1), [])"
      using b so lo hi by (rule interpolateIMU_between)
    moreover have "(t0 + f * (t1 - t0) - t0) / (t1 - t0) = f" using assms by simp
    ultimately show ?thesis by simp
  qed
qed



lemma getPoseAndIMU_imu_no_arrivals:
  assumes "accBuffer s \<noteq> []" "gyroBuffer s \<noteq> []"
    and "interpolateIMU RS2_STREAM_ACCEL s [] stamp maxW = (s2, [], Some a, w2)"
    and "interpolateIMU RS2_STREAM_GYRO s2 [] stamp maxW = (s3, [], Some g, w3)"
  shows "imu (getPoseAndIMU ip s [] stamp maxW) = Some (IMU g a)"
  using getPoseAndIMU_no_arrivals [OF assms(1,2,3), of ip] assms(4) by simp

text \<open>
  C10. When the accelerometer buffer or the gyroscope buffer is empty, \<^verbatim>\<open>getPoseAndIMU\<close>
  returns at once: the pose is null, the confidence 0, the IMU empty, nothing is logged and
  the camera is unchanged, whatever the pose buffer holds.
\<close>

theorem getPoseAndIMU_gated_on_imu_buffers:
  "accBuffer s = [] \<or> gyroBuffer s = [] \<Longrightarrow>
   getPoseAndIMU ip s sched stamp maxW
     = \<lparr>cam = s, rest = sched, pose = None, poseConfidence = 0, imu = None, warnings = []\<rparr>"
  by (auto simp: getPoseAndIMU_def)

theorem getPoseAndIMU_gated_on_imu_buffers_witness:
  "accBuffer ((example_cam True)\<lparr>accBuffer := []\<rparr>) = []
   \<and> poseBuffer ((example_cam True)\<lparr>accBuffer := []\<rparr>) = [(100, (7, 2)), (200, (9, 3))]
   \<and> getPoseAndIMU example_interpolate ((example_cam True)\<lparr>accBuffer := []\<rparr>) [] 150 0
       = \<lparr>cam = (example_cam True)\<lparr>accBuffer := []\<rparr>, rest = [], pose = None,
          poseConfidence = 0, imu = None, warnings = []\<rparr>"
  using getPoseAndIMU_gated_on_imu_buffers
    [of "(example_cam True)\<lparr>accBuffer := []\<rparr>" example_interpolate "[]" 150 0]
  by (simp add: example_cam_def constructed_def)

lemma interpolatePose_between:
  assumes so: "strictly_ordered (poseBuffer s)"
    and buf: "poseBuffer s = pre @ (t0, (p0, c0)) # (t1, (p1, c1)) # post"
    and lo: "t0 < stamp" and hi: "stamp \<le> t1"
  shows "interpolatePose ip s sched stamp maxW
           = (s, sched, Some (ip ((stamp - t0) / (t1 - t0)) p0 p1), c0, [])"
proof -
  have "fst (t1, (p1, c1)) \<le> fst (last (poseBuffer s))"
    using so by (rule last_key_greatest) (simp add: buf)
  then have nl: "\<not> fst (last (poseBuffer s)) < stamp" using hi by simp
  then have w: "waitLoop poseBuffer maxW stamp 0 s sched = (s, sched)"
    by (rule waitLoop_caught_up)
  have "\<forall>x \<in> set pre. fst x < t0"
    using strictly_ordered_append [of pre "(t0, (p0, c0))" "(t1, (p1, c1)) # post"] so buf
    by simp
  then have "\<forall>x \<in> set (pre @ [(t0, (p0, c0))]). fst x < stamp" using lo by auto
  then have br: "bracket (poseBuffer s) stamp = (length pre, Suc (length pre))"
    unfolding buf using hi by (intro bracket_inner) simp_all
  have a: "poseBuffer s ! length pre = (t0, (p0, c0))" by (simp add: buf)
  have b: "poseBuffer s ! Suc (length pre) = (t1, (p1, c1))" by (simp add: buf nth_append)
  show ?thesis using nl lo hi by (simp add: interpolatePose_def w br a b Let_def)
qed

lemma interpolatePose_two:
  assumes buf: "poseBuffer s = [(t0, (p0, c0)), (t1, (p1, c1))]"
    and "t0 < t1" "0 < f" "f \<le> 1"
  shows "interpolatePose ip s sched (t0 + f * (t1 - t0)) maxW
           = (s, sched, Some (ip f p0 p1), c0, [])"
proof -
  have so: "strictly_ordered (poseBuffer s)"
    using assms by (simp add: strictly_ordered_def)
  have pos: "0 < f * (t1 - t0)" using assms by simp
  have "f * (t1 - t0) \<le> 1 * (t1 - t0)"
    using assms by (intro mult_right_mono) simp_all
  then have hi: "t0 + f * (t1 - t0) \<le> t1" by simp
  have b: "poseBuffer s = [] @ (t0, (p0, c0)) # (t1, (p1, c1)) # []" by (simp add: buf)
  have lo: "t0 < t0 + f * (t1 - t0)" using pos by simp
  have "interpolatePose ip s sched (t0 + f * (t1 - t0)) maxW
      = (s, sched, Some (ip ((t0 + f * (t1 - t0) - t0) / (t1 - t0)) p0 p1), c0, [])"
    using so b lo hi by (rule interpolatePose_between)
  moreover have "(t0 + f * (t1 - t0) - t0) / (t1 - t0) = f" using assms by simp
  ultimately show ?thesis by simp
qed

text \<open>
  C4, as stated, fails on the pose buffer: between two poses with confidences 1 and 3, at
  the middle of their stamps, the confidence returned is 1, not 2.
\<close>

theorem pose_confidence_not_interpolated_counterexample:
  "poseBuffer ((example_cam True)\<lparr>poseBuffer := [(100, (7, 1)), (200, (9, 3))]\<rparr>)
     = [(100, (7, 1)), (200, (9, 3))]
   \<and> (150::real) = 100 + 1 / 2 * (200 - 100)
   \<and> (1::real) + 1 / 2 * (3 - 1) = 2
   \<and> poseConfidence (getPoseAndIMU example_interpolate
         ((example_cam True)\<lparr>poseBuffer := [(100, (7, 1)), (200, (9, 3))]\<rparr>) [] 150 0) = 1"
  by (simp add: example_cam_def constructed_def getPoseAndIMU_def interpolatePose_def
      interpolateIMU_def waitLoop.simps imuBuffer_def Let_def bracket_def lower_bound_def)

text \<open>
  C4, amended. With two samples at \<open>t0 < t1\<close> in an inertial buffer and a target
  \<open>t0 + f * (t1 - t0)\<close>, \<open>0 \<le> f \<le> 1\<close>, the block for that buffer gives
  \<open>v0 + f * (v1 - v0)\<close> in each of the three components (over the reals); and
  \<^verbatim>\<open>getPoseAndIMU\<close> returns the IMU made of the two interpolated readings when no frame
  arrives during the call. With two samples in the pose buffer and \<open>0 < f \<le> 1\<close>, the pose
  block gives \<^verbatim>\<open>interpolate\<close> at ratio \<open>f\<close> between the two transforms, with the confidence
  of the earlier sample.
\<close>

theorem linear_interpolation_between_two_samples:
  "(imuBuffer st s = [(t0, (x0, y0, z0)), (t1, (x1, y1, z1))]
      \<and> t0 < t1 \<and> 0 \<le> f \<and> f \<le> 1 \<longrightarrow>
      interpolateIMU st s sched (t0 + f * (t1 - t0)) maxW
        = (s, sched, Some (x0 + f * (x1 - x0), y0 + f * (y1 - y0), z0 + f * (z1 - z0)), []))
   \<and> (accBuffer s = [(t0, a0), (t1, a1)] \<and> gyroBuffer s = [(t0, g0), (t1, g1)]
      \<and> t0 < t1 \<and> 0 \<le> f \<and> f \<le> 1 \<longrightarrow>
      imu (getPoseAndIMU ip s [] (t0 + f * (t1 - t0)) maxW)
        = Some (IMU (lerp f g0 g1) (lerp f a0 a1)))
   \<and> (poseBuffer s = [(t0, (p0, c0)), (t1, (p1, c1))] \<and> t0 < t1 \<and> 0 < f \<and> f \<le> 1 \<longrightarrow>
      interpolatePose ip s sched (t0 + f * (t1 - t0)) maxW
        = (s, sched, Some (ip f p0 p1), c0, []))"
proof (intro conjI impI)
  assume "imuBuffer st s = [(t0, (x0, y0, z0)), (t1, (x1, y1, z1))]
            \<and> t0 < t1 \<and> 0 \<le> f \<and> f \<le> 1"
  then have "interpolateIMU st s sched (t0 + f * (t1 - t0)) maxW
               = (s, sched, Some (lerp f (x0, y0, z0) (x1, y1, z1)), [])"
    by (intro interpolateIMU_two) simp_all
  then show "interpolateIMU st s sched (t0 + f * (t1 - t0)) maxW
        = (s, sched, Some (x0 + f * (x1 - x0), y0 + f * (y1 - y0), z0 + f * (z1 - z0)), [])"
    by (simp add: lerp_def)
next
  assume a: "accBuffer s = [(t0, a0), (t1, a1)] \<and> gyroBuffer s = [(t0, g0), (t1, g1)]
      \<and> t0 < t1 \<and> 0 \<le> f \<and> f \<le> 1"
  have "interpolateIMU RS2_STREAM_ACCEL s [] (t0 + f * (t1 - t0)) maxW
          = (s, [], Some (lerp f a0 a1), [])"
    using a by (intro interpolateIMU_two) (simp_all add: imuBuffer_def)
  moreover have "interpolateIMU RS2_STREAM_GYRO s [] (t0 + f * (t1 - t0)) maxW
          = (s, [], Some (lerp f g0 g1), [])"
    using a by (intro interpolateIMU_two) (simp_all add: imuBuffer_def)
  ultimately show "imu (getPoseAndIMU ip s [] (t0 + f * (t1 - t0)) maxW)
                     = Some (IMU (lerp f g0 g1) (lerp f a0 a1))"
    using a by (intro getPoseAndIMU_imu_no_arrivals) simp_all
next
  assume "poseBuffer s = [(t0, (p0, c0)), (t1, (p1, c1))] \<and> t0 < t1 \<and> 0 < f \<and> f \<le> 1"
  then show "interpolatePose ip s sched (t0 + f * (t1 - t0)) maxW
        = (s, sched, Some (ip f p0 p1), c0, [])"
    by (intro interpolatePose_two) simp_all
qed

theorem linear_interpolation_between_two_samples_witness:
  "imuBuffer RS2_STREAM_GYRO (example_cam True) = [(100, (0, 0, 1)), (200, (0, 0, 3))]
   \<and> interpolateIMU RS2_STREAM_GYRO (example_cam True) [] 150 0
       = (example_cam True, [], Some (0, 0, 2), [])
   \<and> imu (getPoseAndIMU example_interpolate (example_cam True) [] 150 0)
       = Some (IMU (0, 0, 2) (2, 0, 0))
   \<and> poseBuffer (example_cam True) = [(100, (7, 2)), (200, (9, 3))]
   \<and> interpolatePose example_interpolate (example_cam True) [] 150 0
       = (example_cam True, [], Some (example_interpolate (1 / 2) 7 9), 2, [])"
proof -
  have g: "imuBuffer RS2_STREAM_GYRO (example_cam True) = [(100, (0, 0, 1)), (200, (0, 0, 3))]"
    by (simp add: imuBuffer_def example_cam_def constructed_def)
  have b: "accBuffer (example_cam True) = [(100, (1, 0, 0)), (200, (3, 0, 0))]
           \<and> gyroBuffer (example_cam True) = [(100, (0, 0, 1)), (200, (0, 0, 3))]
           \<and> poseBuffer (example_cam True) = [(100, (7, 2)), (200, (9, 3))]"
    by (simp add: example_cam_def constructed_def)
  have arith: "(100::real) < 200 \<and> (0::real) < 1 / 2 \<and> (1::real) / 2 \<le> 1" by simp
  show ?thesis
    using g b arith
      linear_interpolation_between_two_samples
        [of RS2_STREAM_GYRO "example_cam True" 100 0 0 1 200 0 0 3 "1 / 2" "[]" 0
            "(1, 0, 0)" "(3, 0, 0)" "(0, 0, 1)" "(0, 0, 3)" example_interpolate 7 2 9 3]
    by (simp add: lerp_def)
qed


lemma example_cam_ordered:
  "strictly_ordered (accBuffer (example_cam b)) \<and> strictly_ordered (gyroBuffer (example_cam b))
   \<and> strictly_ordered (poseBuffer (example_cam b))"
  by (simp add: example_cam_def constructed_def strictly_ordered_def)

lemma example_cam_buffers:
  "accBuffer (example_cam b) = [(100, (1, 0, 0)), (200, (3, 0, 0))]"
  "gyroBuffer (example_cam b) = [(100, (0, 0, 1)), (200, (0, 0, 3))]"
  "poseBuffer (example_cam b) = [(100, (7, 2)), (200, (9, 3))]"
  "globalTimeSync (example_cam b) = b"
  "imuGlobalSyncWarningShown (example_cam b) = False"
  by (simp_all add: example_cam_def constructed_def)





text \<open>
  C2, as stated, fails when strict time sync is off: for a target of 50, before the earliest
  inertial samples at 100, the call returns the latest readings (those stored at 200).
\<close>

theorem before_earliest_lenient_counterexample:
  "accBuffer (example_cam False) = [(100, (1, 0, 0)), (200, (3, 0, 0))]
   \<and> gyroBuffer (example_cam False) = [(100, (0, 0, 1)), (200, (0, 0, 3))]
   \<and> \<not> globalTimeSync (example_cam False)
   \<and> imu (getPoseAndIMU example_interpolate (example_cam False) [] 50 0)
       = Some (IMU (0, 0, 3) (3, 0, 0))"
  by (simp add: example_cam_def constructed_def getPoseAndIMU_def interpolatePose_def
      interpolateIMU_def waitLoop.simps imuBuffer_def Let_def bracket_def lower_bound_def)

text \<open>
  C2, amended. For a target before the earliest stored sample of a buffer: the pose block
  leaves the pose null in both modes; an inertial block gives nothing under strict time sync
  and the value of the latest stored sample when strict time sync is off. For
  \<^verbatim>\<open>getPoseAndIMU\<close>, when no frame arrives during the call: under strict time sync the IMU
  is empty as soon as the target is before the earliest accel sample; without it, a target
  before the earliest accel and gyro samples gives the IMU of the two latest readings.
\<close>

theorem before_earliest_policy:
  "(strictly_ordered (poseBuffer s) \<and> poseBuffer s \<noteq> [] \<and> stamp < fst (hd (poseBuffer s)) \<longrightarrow>
      interpolatePose ip s sched stamp maxW = (s, sched, None, 0, [PoseEarliestWarn]))
   \<and> (strictly_ordered (imuBuffer st s) \<and> imuBuffer st s \<noteq> []
        \<and> stamp < fst (hd (imuBuffer st s)) \<longrightarrow>
      fst (snd (snd (interpolateIMU st s sched stamp maxW)))
        = (if globalTimeSync s then None else Some (snd (last (imuBuffer st s)))))
   \<and> (strictly_ordered (accBuffer s) \<and> accBuffer s \<noteq> [] \<and> gyroBuffer s \<noteq> []
        \<and> stamp < fst (hd (accBuffer s)) \<and> globalTimeSync s \<longrightarrow>
      imu (getPoseAndIMU ip s [] stamp maxW) = None)
   \<and> (strictly_ordered (accBuffer s) \<and> accBuffer s \<noteq> [] \<and> stamp < fst (hd (accBuffer s))
        \<and> strictly_ordered (gyroBuffer s) \<and> gyroBuffer s \<noteq> [] \<and> stamp < fst (hd (gyroBuffer s))
        \<and> \<not> globalTimeSync s \<longrightarrow>
      imu (getPoseAndIMU ip s [] stamp maxW)
        = Some (IMU (snd (last (gyroBuffer s))) (snd (last (accBuffer s)))))"
proof (intro conjI impI)
  assume "strictly_ordered (poseBuffer s) \<and> poseBuffer s \<noteq> [] \<and> stamp < fst (hd (poseBuffer s))"
  then show "interpolatePose ip s sched stamp maxW = (s, sched, None, 0, [PoseEarliestWarn])"
    by (intro interpolatePose_before) simp_all
next
  assume "strictly_ordered (imuBuffer st s) \<and> imuBuffer st s \<noteq> []
        \<and> stamp < fst (hd (imuBuffer st s))"
  then show "fst (snd (snd (interpolateIMU st s sched stamp maxW)))
        = (if globalTimeSync s then None else Some (snd (last (imuBuffer st s))))"
    by (simp add: interpolateIMU_before)
next
  assume a: "strictly_ordered (accBuffer s) \<and> accBuffer s \<noteq> [] \<and> gyroBuffer s \<noteq> []
        \<and> stamp < fst (hd (accBuffer s)) \<and> globalTimeSync s"
  then have e: "interpolateIMU RS2_STREAM_ACCEL s [] stamp maxW
     = (s, [], None, if imuGlobalSyncWarningShown s then [] else [ImuEarliestWarn RS2_STREAM_ACCEL])"
    by (subst interpolateIMU_before) (simp_all add: imuBuffer_def)
  have "accBuffer s \<noteq> []" "gyroBuffer s \<noteq> []" using a by simp_all
  from getPoseAndIMU_no_arrivals [OF this e]
  show "imu (getPoseAndIMU ip s [] stamp maxW) = None" by simp
next
  assume a: "strictly_ordered (accBuffer s) \<and> accBuffer s \<noteq> [] \<and> stamp < fst (hd (accBuffer s))
        \<and> strictly_ordered (gyroBuffer s) \<and> gyroBuffer s \<noteq> [] \<and> stamp < fst (hd (gyroBuffer s))
        \<and> \<not> globalTimeSync s"
  let ?s2 = "s\<lparr>imuGlobalSyncWarningShown := True\<rparr>"
  have 1: "interpolateIMU RS2_STREAM_ACCEL s [] stamp maxW
     = (?s2, [], Some (snd (last (accBuffer s))),
        if imuGlobalSyncWarningShown s then []
        else [ImuEarliestWarn RS2_STREAM_ACCEL, ImuRestampNotice RS2_STREAM_ACCEL])"
    using a by (subst interpolateIMU_before) (simp_all add: imuBuffer_def)
  have 2: "interpolateIMU RS2_STREAM_GYRO ?s2 [] stamp maxW
     = (?s2, [], Some (snd (last (gyroBuffer s))), [])"
    using a by (subst interpolateIMU_before) (simp_all add: imuBuffer_def)
  show "imu (getPoseAndIMU ip s [] stamp maxW)
        = Some (IMU (snd (last (gyroBuffer s))) (snd (last (accBuffer s))))"
    using a 1 2 by (intro getPoseAndIMU_imu_no_arrivals) simp_all
qed

theorem before_earliest_policy_witness:
  "interpolatePose example_interpolate (example_cam True) [] 50 0
     = (example_cam True, [], None, 0, [PoseEarliestWarn])
   \<and> interpolatePose example_interpolate (example_cam False) [] 50 0
     = (example_cam False, [], None, 0, [PoseEarliestWarn])
   \<and> fst (snd (snd (interpolateIMU RS2_STREAM_GYRO (example_cam True) [] 50 0))) = None
   \<and> fst (snd (snd (interpolateIMU RS2_STREAM_GYRO (example_cam False) [] 50 0))) = Some (0, 0, 3)
   \<and> imu (getPoseAndIMU example_interpolate (example_cam True) [] 50 0) = None
   \<and> imu (getPoseAndIMU example_interpolate (example_cam False) [] 50 0)
       = Some (IMU (0, 0, 3) (3, 0, 0))"
  using before_earliest_policy [of "example_cam True" 50 example_interpolate "[]" 0 RS2_STREAM_GYRO]
    before_earliest_policy [of "example_cam False" 50 example_interpolate "[]" 0 RS2_STREAM_GYRO]
    example_cam_ordered [of True] example_cam_ordered [of False]
  by (simp add: imuBuffer_def example_cam_buffers)

text \<open>
  C1. For a target of 250, after the latest inertial samples at 200, \<^verbatim>\<open>getPoseAndIMU\<close> returns
  an empty IMU under strict time sync and also when strict time sync is off, with or without
  a wait: the test after the wait loop returns before the code that would use the latest
  sample is reached.
\<close>

theorem after_latest_fails_in_both_modes:
  "accBuffer (example_cam False) = [(100, (1, 0, 0)), (200, (3, 0, 0))]
   \<and> gyroBuffer (example_cam False) = [(100, (0, 0, 1)), (200, (0, 0, 3))]
   \<and> \<not> globalTimeSync (example_cam False)
   \<and> imu (getPoseAndIMU example_interpolate (example_cam False) [] 250 0) = None
   \<and> imu (getPoseAndIMU example_interpolate (example_cam False) [] 250 5) = None
   \<and> imu (getPoseAndIMU example_interpolate (example_cam True) [] 250 0) = None"
  by (simp add: example_cam_def constructed_def getPoseAndIMU_def interpolatePose_def
      interpolateIMU_def waitLoop_no_arrivals imuBuffer_def Let_def)


section \<open>Properties of captureImage\<close>

lemma scan_stamp_frame:
  "scan_stamp (scan_frame s a f) = min (scan_stamp a) (timestamp_of f)"
  by (simp add: scan_frame_def Let_def min_def)

lemma scan_stamp_foldl:
  "scan_stamp (foldl (scan_frame s) a fs) = fold min (map timestamp_of fs) (scan_stamp a)"
  by (induction fs arbitrary: a) (simp_all add: scan_stamp_frame min.commute)

lemma scan_stamp_frameset:
  "scan_stamp (scan_frameset s fs) = Min (set (fs_timestamp fs # map timestamp_of (fs_frames fs)))"
  by (simp only: Min.set_eq_fold) (simp add: scan_frameset_def scan_stamp_foldl)

lemma sd_fused_attachIMU:
  "sd_fused (cap_data (attachIMU ip s sched maxW fd stamp_s ws)) = fd"
  by (simp add: attachIMU_def Let_def split: prod.splits)

lemma sd_fused_captureImage:
  assumes "awaitFrameset s first retries = Some fs"
    and "length (fs_frames fs) = desiredFramesetSize s"
  shows "sd_fused (cap_data (captureImage ip s sched maxW first retries now))
           = fst (makeData s (scan_frameset s fs)
                 (if scan_stamp (scan_frameset s fs) / 1000 - now > 1000000000 then now
                  else scan_stamp (scan_frameset s fs) / 1000))"
  using assms
  by (simp add: captureImage_def Let_def clockCheck_def sd_fused_attachIMU makeData_def
      split: prod.splits)

lemma fused_stamp_makeData:
  "fst (makeData s a t) = Some d \<Longrightarrow> fused_stamp d = t"
  by (auto simp: makeData_def split: if_splits)

lemma retryLoop_wrong_size:
  "retryLoop d fs0 rs = Some fs \<Longrightarrow> length (fs_frames fs) \<noteq> d \<Longrightarrow>
   last (Some fs0 # rs) = Some fs
   \<and> list_all (\<lambda>r. case r of None \<Rightarrow> False | Some f \<Rightarrow> length (fs_frames f) \<noteq> d) (Some fs0 # rs)"
proof (induction d fs0 rs rule: retryLoop.induct)
  case (1 desired fs)
  then show ?case by simp
next
  case (2 desired fs r rs)
  then show ?case by (cases r) (auto split: if_splits)
qed

lemma captureImage_missing:
  assumes "awaitFrameset s first retries = Some fs"
    and "length (fs_frames fs) \<noteq> desiredFramesetSize s"
  shows "captureImage ip s sched maxW first retries now =
           \<lparr>cap_cam = s, cap_rest = sched, cap_data = \<lparr>sd_fused = None, sd_imu = None\<rparr>,
            cap_events = [], cap_log = [MissingFrames (length (fs_frames fs))]\<rparr>"
  using assms by (simp add: captureImage_def)

lemma captureImage_fused_complete:
  assumes "sd_fused (cap_data (captureImage ip s sched maxW first retries now)) \<noteq> None"
  shows "\<exists>fs. awaitFrameset s first retries = Some fs
              \<and> length (fs_frames fs) = desiredFramesetSize s"
proof (cases "awaitFrameset s first retries")
  case None
  then show ?thesis using assms by (simp add: captureImage_def thrown_def)
next
  case (Some fs)
  then show ?thesis using assms by (cases "length (fs_frames fs) = desiredFramesetSize s")
      (simp_all add: captureImage_def)
qed


section \<open>The latches over a session\<close>

lemma count_where_append [simp]:
  "count_where P (xs @ ys) = count_where P xs + count_where P ys"
  by (simp add: count_where_def)

lemma count_where_Nil [simp]: "count_where P [] = 0"
  by (simp add: count_where_def)

lemma count_where_Cons [simp]:
  "count_where P (x # xs) = (if P x then Suc (count_where P xs) else count_where P xs)"
  by (simp add: count_where_def)

lemma once_step_trans:
  "once_step b b1 n \<Longrightarrow> once_step b1 b2 m \<Longrightarrow> once_step b b2 (n + m)"
  by (auto simp: once_step_def)

lemma once_step_same [simp]: "once_step b b 0"
  by (simp add: once_step_def)

lemma session_step_trans:
  assumes a: "session_step s w1 s1" and b: "session_step s1 w2 s2"
  shows "session_step s (w1 @ w2) s2"
proof -
  have g: "globalTimeSync s1 = globalTimeSync s" "globalTimeSync s2 = globalTimeSync s"
    using a b by (simp_all add: session_step_def)
  have "once_step (clockSyncWarningShown s) (clockSyncWarningShown s1)
          (count_where is_clock_warning w1)"
    "once_step (clockSyncWarningShown s1) (clockSyncWarningShown s2)
          (count_where is_clock_warning w2)"
    using a b by (simp_all add: session_step_def)
  from once_step_trans [OF this]
  have c: "once_step (clockSyncWarningShown s) (clockSyncWarningShown s2)
             (count_where is_clock_warning (w1 @ w2))"
    by simp
  have m: "imuGlobalSyncWarningShown s \<longrightarrow> imuGlobalSyncWarningShown s2"
    using a b by (simp add: session_step_def)
  have e: "globalTimeSync s \<longrightarrow> imuGlobalSyncWarningShown s2 = imuGlobalSyncWarningShown s"
    using a b g by (simp add: session_step_def)
  have r: "once_step (imuGlobalSyncWarningShown s) (imuGlobalSyncWarningShown s2)
             (count_where P (w1 @ w2))"
    if "once_step (imuGlobalSyncWarningShown s) (imuGlobalSyncWarningShown s1) (count_where P w1)"
      and "once_step (imuGlobalSyncWarningShown s1) (imuGlobalSyncWarningShown s2) (count_where P w2)"
    for P
    using once_step_trans [OF that] by simp
  have "\<not> globalTimeSync s \<longrightarrow>
           once_step (imuGlobalSyncWarningShown s) (imuGlobalSyncWarningShown s2)
             (count_where is_range_warning (w1 @ w2))
           \<and> once_step (imuGlobalSyncWarningShown s) (imuGlobalSyncWarningShown s2)
               (count_where is_restamp_notice (w1 @ w2))"
    using a b g r [of is_range_warning] r [of is_restamp_notice]
    by (simp add: session_step_def del: count_where_append)
  then show ?thesis using g c m e by (simp add: session_step_def del: count_where_append)
qed

lemma session_step_latches:
  "latches s' = latches s \<Longrightarrow> session_step s [] s'"
  by (simp add: session_step_def latches_def)

lemma latches_callback: "latches (multiple_message_callback s f) = latches s"
  by (simp add: latches_def multiple_message_callback_def imu_callback_def pose_callback_def
      frame_callback_def split: stream_type.splits)

lemma latches_foldl: "latches (foldl multiple_message_callback s fs) = latches s"
  by (induction fs arbitrary: s) (simp_all add: latches_callback)

lemma latches_uSleep: "latches (fst (uSleep s sched)) = latches s"
  by (simp add: uSleep_def latches_foldl split: list.splits)

lemma latches_waitLoop: "latches (fst (waitLoop sel maxW stamp n s sched)) = latches s"
proof (induction sel maxW stamp n s sched rule: waitLoop.induct)
  case (1 sel maxW stamp n s sched)
  show ?case
  proof (cases "maxW > 0 \<and> fst (last (sel s)) < stamp \<and> n < maxW")
    case True
    obtain s' sched' where u: "uSleep s sched = (s', sched')" by (cases "uSleep s sched")
    have "latches (fst (waitLoop sel maxW stamp (n + 1) s' sched')) = latches s'"
      using True u by (intro "1.IH") simp_all
    moreover have "latches s' = latches s" using latches_uSleep [of s sched] u by simp
    ultimately show ?thesis using True u by (subst waitLoop.simps) simp
  next
    case False
    then show ?thesis by (subst waitLoop.simps) auto
  qed
qed

lemma latches_fields:
  "latches s' = latches s \<Longrightarrow>
   clockSyncWarningShown s' = clockSyncWarningShown s
   \<and> imuGlobalSyncWarningShown s' = imuGlobalSyncWarningShown s
   \<and> globalTimeSync s' = globalTimeSync s"
  by (simp add: latches_def)

lemma interpolatePose_facts:
  "fst (interpolatePose ip s sched stamp maxW) = fst (waitLoop poseBuffer maxW stamp 0 s sched)
   \<and> count_where is_clock_warning (snd (snd (snd (snd (interpolatePose ip s sched stamp maxW))))) = 0
   \<and> count_where is_range_warning (snd (snd (snd (snd (interpolatePose ip s sched stamp maxW))))) = 0
   \<and> count_where is_restamp_notice (snd (snd (snd (snd (interpolatePose ip s sched stamp maxW))))) = 0"
  by (simp add: interpolatePose_def Let_def split: prod.splits)

lemma interpolatePose_step:
  assumes "interpolatePose ip s sched stamp maxW = (s', sched', p, c, ws)"
  shows "session_step s ws s'"
proof -
  have "latches s' = latches s"
    using interpolatePose_facts [of ip s sched stamp maxW] assms
      latches_waitLoop [of poseBuffer maxW stamp 0 s sched] by simp
  from latches_fields [OF this] interpolatePose_facts [of ip s sched stamp maxW] assms
  show ?thesis by (simp add: session_step_def)
qed

lemma interpolateIMU_facts:
  "fst (waitLoop (imuBuffer st) maxW stamp 0 s sched) = s1 \<Longrightarrow>
   interpolateIMU st s sched stamp maxW = (s', sched', v, ws) \<Longrightarrow>
   globalTimeSync s' = globalTimeSync s1
   \<and> clockSyncWarningShown s' = clockSyncWarningShown s1
   \<and> count_where is_clock_warning ws = 0
   \<and> (imuGlobalSyncWarningShown s1 \<longrightarrow> imuGlobalSyncWarningShown s')
   \<and> (globalTimeSync s1 \<longrightarrow> imuGlobalSyncWarningShown s' = imuGlobalSyncWarningShown s1)
   \<and> (\<not> globalTimeSync s1 \<longrightarrow>
        once_step (imuGlobalSyncWarningShown s1) (imuGlobalSyncWarningShown s')
          (count_where is_range_warning ws)
        \<and> once_step (imuGlobalSyncWarningShown s1) (imuGlobalSyncWarningShown s')
            (count_where is_restamp_notice ws))"
  by (cases "waitLoop (imuBuffer st) maxW stamp 0 s sched",
      cases "bracket (imuBuffer st s1) stamp")
     (auto simp: interpolateIMU_def Let_def once_step_def split: if_split_asm)

lemma interpolateIMU_step:
  assumes r: "interpolateIMU st s sched stamp maxW = (s', sched', v, ws)"
  shows "session_step s ws s'"
proof -
  let ?s1 = "fst (waitLoop (imuBuffer st) maxW stamp 0 s sched)"
  have "latches ?s1 = latches s" by (rule latches_waitLoop)
  from latches_fields [OF this] interpolateIMU_facts [OF refl r]
  show ?thesis by (simp add: session_step_def)
qed

lemma getPoseAndIMU_step:
  "session_step s (warnings (getPoseAndIMU ip s sched stamp maxW))
     (cam (getPoseAndIMU ip s sched stamp maxW))"
proof (cases "accBuffer s = [] \<or> gyroBuffer s = []")
  case True
  then show ?thesis by (simp add: getPoseAndIMU_def session_step_latches)
next
  case False
  obtain s1 sched1 p c w1 where
    pb: "(if poseBuffer s \<noteq> [] then interpolatePose ip s sched stamp maxW
          else (s, sched, None, 0, [])) = (s1, sched1, p, c, w1)"
    by (metis prod_cases5)
  have st1: "session_step s w1 s1"
    using pb interpolatePose_step [of ip s sched stamp maxW]
    by (auto simp: session_step_latches split: if_splits)
  obtain s2 sched2 accV w2 where
    ab: "interpolateIMU RS2_STREAM_ACCEL s1 sched1 stamp maxW = (s2, sched2, accV, w2)"
    by (metis prod_cases4)
  have st2: "session_step s1 w2 s2" using ab by (rule interpolateIMU_step)
  have st12: "session_step s (w1 @ w2) s2" using st1 st2 by (rule session_step_trans)
  show ?thesis
  proof (cases accV)
    case None
    then show ?thesis using False pb ab st12 by (simp add: getPoseAndIMU_def)
  next
    case (Some a)
    obtain s3 sched3 gyroV w3 where
      gb: "interpolateIMU RS2_STREAM_GYRO s2 sched2 stamp maxW = (s3, sched3, gyroV, w3)"
      by (metis prod_cases4)
    have "session_step s2 w3 s3" using gb by (rule interpolateIMU_step)
    then have "session_step s ((w1 @ w2) @ w3) s3" using st12 session_step_trans by blast
    then show ?thesis using False pb ab gb Some by (simp add: getPoseAndIMU_def)
  qed
qed

lemma publishLoop_step:
  "publishLoop ip s sched maxW ks = (s', sched', ev, ws) \<Longrightarrow> session_step s ws s'"
proof (induction ks arbitrary: s sched s' sched' ev ws)
  case Nil
  then show ?case by (simp add: session_step_latches)
next
  case (Cons k ks)
  let ?r = "getPoseAndIMU ip s sched k maxW"
  have st: "session_step s (warnings ?r) (cam ?r)" by (rule getPoseAndIMU_step)
  show ?case
  proof (cases "imu ?r")
    case None
    then show ?thesis using Cons.prems st by (simp add: Let_def)
  next
    case (Some i)
    obtain s2 sched2 ev2 ws2 where
      pl: "publishLoop ip (cam ?r) (rest ?r) maxW ks = (s2, sched2, ev2, ws2)"
      by (metis prod_cases4)
    have "session_step (cam ?r) ws2 s2" using pl by (rule Cons.IH)
    then have "session_step s (warnings ?r @ ws2) s2" using st session_step_trans by blast
    then show ?thesis using Cons.prems Some pl by (simp add: Let_def)
  qed
qed

lemma session_step_lastImuStamp:
  "session_step s ws s' \<Longrightarrow> session_step s ws (s'\<lparr>lastImuStamp := t\<rparr>)"
  by (simp add: session_step_def)

lemma session_step_error:
  "session_step s ws s' \<Longrightarrow> session_step s (ws @ [FrameCallbackError]) s'"
  by (simp add: session_step_def)

lemma attachIMU_step:
  "take (length ws) (cap_log (attachIMU ip s sched maxW fd stamp_s ws)) = ws
   \<and> session_step s (drop (length ws) (cap_log (attachIMU ip s sched maxW fd stamp_s ws)))
         (cap_cam (attachIMU ip s sched maxW fd stamp_s ws))"
proof -
  let ?r = "getPoseAndIMU ip s sched (stamp_s * 1000) maxW"
  have st: "session_step s (warnings ?r) (cam ?r)" by (rule getPoseAndIMU_step)
  have pl: "session_step s (warnings ?r @ ws2) (s2\<lparr>lastImuStamp := t\<rparr>)"
    if "publishLoop ip (cam ?r) (rest ?r) maxW ks = (s2, sched2, ev2, ws2)"
    for ks s2 sched2 ev2 ws2 t
    using session_step_trans [OF st publishLoop_step [OF that]]
    by (rule session_step_lastImuStamp)
  have st3: "session_step s (warnings ?r @ [FrameCallbackError]) (cam ?r)"
    using st by (rule session_step_error)
  have st4: "\<And>t. session_step s (warnings ?r) ((cam ?r)\<lparr>lastImuStamp := t\<rparr>)"
    using st by (rule session_step_lastImuStamp)
  show ?thesis
    using st st3 st4 pl by (simp add: attachIMU_def Let_def split: prod.splits)
qed


lemma session_step_neutral:
  "latches s' = latches s \<Longrightarrow> count_where is_clock_warning ws = 0 \<Longrightarrow>
   count_where is_range_warning ws = 0 \<Longrightarrow> count_where is_restamp_notice ws = 0 \<Longrightarrow>
   session_step s ws s'"
  by (simp add: session_step_def latches_def)

lemma clockCheck_step:
  "clockCheck s now stamp_ms = (s1, stamp_s, w1) \<Longrightarrow> session_step s w1 s1"
  by (auto simp: clockCheck_def Let_def session_step_def once_step_def split: if_split_asm)

lemma makeData_neutral:
  "makeData s a t = (fd, w2) \<Longrightarrow> session_step s w2 s"
  by (auto simp: makeData_def session_step_def split: if_split_asm)

lemma captureImage_step:
  "session_step s (cap_log (captureImage ip s sched maxW first retries now))
     (cap_cam (captureImage ip s sched maxW first retries now))"
proof (cases "awaitFrameset s first retries")
  case None
  then show ?thesis by (simp add: captureImage_def thrown_def session_step_def)
next
  case (Some fs)
  show ?thesis
  proof (cases "length (fs_frames fs) = desiredFramesetSize s")
    case False
    then show ?thesis using Some by (simp add: captureImage_def session_step_def)
  next
    case True
    obtain s1 stamp_s w1 where
      cc: "clockCheck s now (scan_stamp (scan_frameset s fs)) = (s1, stamp_s, w1)"
      by (metis prod_cases3)
    obtain fd w2 where md: "makeData s1 (scan_frameset s fs) stamp_s = (fd, w2)"
      by (cases "makeData s1 (scan_frameset s fs) stamp_s")
    let ?R = "attachIMU ip s1 sched maxW fd stamp_s (w1 @ w2)"
    have eq: "captureImage ip s sched maxW first retries now = ?R"
      using Some True cc md by (simp add: captureImage_def Let_def)
    have a: "session_step s (w1 @ w2) s1"
      using clockCheck_step [OF cc] makeData_neutral [OF md] by (rule session_step_trans)
    have b: "take (length (w1 @ w2)) (cap_log ?R) = w1 @ w2"
      and c: "session_step s1 (drop (length (w1 @ w2)) (cap_log ?R)) (cap_cam ?R)"
      using attachIMU_step [of "w1 @ w2" ip s1 sched maxW fd stamp_s] by blast+
    have "session_step s ((w1 @ w2) @ drop (length (w1 @ w2)) (cap_log ?R)) (cap_cam ?R)"
      using a c by (rule session_step_trans)
    moreover have "(w1 @ w2) @ drop (length (w1 @ w2)) (cap_log ?R) = cap_log ?R"
      using b by (metis append_take_drop_id)
    ultimately show ?thesis by (simp only: eq)
  qed
qed

lemma perform_step: "perform ip s c = (s', ws) \<Longrightarrow> session_step s ws s'"
proof (cases c)
  case (Callback f)
  assume "perform ip s c = (s', ws)"
  then show ?thesis using Callback by (auto simp: session_step_latches latches_callback)
next
  case (GetPoseAndIMU sched t maxW)
  assume "perform ip s c = (s', ws)"
  then show ?thesis using GetPoseAndIMU getPoseAndIMU_step [of s ip sched t maxW]
    by (auto simp: Let_def)
next
  case (CaptureImage sched maxW first retries now)
  assume "perform ip s c = (s', ws)"
  then show ?thesis using CaptureImage captureImage_step [of s ip sched maxW first retries now]
    by (auto simp: Let_def)
qed

lemma session_steps: "session ip s cs = (s', ws) \<Longrightarrow> session_step s ws s'"
proof (induction cs arbitrary: s s' ws)
  case Nil
  then show ?case by (simp add: session_step_latches)
next
  case (Cons c cs)
  obtain s1 w1 where p: "perform ip s c = (s1, w1)" by (cases "perform ip s c")
  obtain s2 w2 where r: "session ip s1 cs = (s2, w2)" by (cases "session ip s1 cs")
  have "session_step s (w1 @ w2) s2"
    using perform_step [OF p] Cons.IH [OF r] by (rule session_step_trans)
  then show ?case using Cons.prems p r by simp
qed

lemma clock_warning_once: "count_where is_clock_warning (snd (session ip s cs)) \<le> 1"
  using session_steps [of ip s cs "fst (session ip s cs)" "snd (session ip s cs)"]
  by (simp add: session_step_def once_step_def)


section \<open>Results on captureImage and the latches\<close>


lemma example_frameset_stamps:
  "fs_timestamp example_frameset = 500"
  "map timestamp_of (fs_frames example_frameset) = [500, 503]"
  by (simp_all add: example_frameset_def a_frame_def)


text \<open>
  C8. The expected size is 3 for an L500 device under time sync and 2 otherwise. When the
  wait ends with a set of another size, every retry before the deadline has been used, and
  \<^verbatim>\<open>captureImage\<close> returns the empty record with the "missing frames" error, the camera
  unchanged. A record with images only comes from a set of the expected size.
\<close>

theorem no_record_from_incomplete_frameset:
  "desiredFramesetSize s = (if isL500 s \<and> globalTimeSync s then 3 else 2)
   \<and> (awaitFrameset s first retries = Some fs
        \<and> length (fs_frames fs) \<noteq> desiredFramesetSize s \<longrightarrow>
        captureImage ip s sched maxW first retries now
          = \<lparr>cap_cam = s, cap_rest = sched, cap_data = \<lparr>sd_fused = None, sd_imu = None\<rparr>,
             cap_events = [], cap_log = [MissingFrames (length (fs_frames fs))]\<rparr>
        \<and> last (first # retries) = Some fs)
   \<and> (sd_fused (cap_data (captureImage ip s sched maxW first retries now)) \<noteq> None \<longrightarrow>
        (\<exists>fs'. awaitFrameset s first retries = Some fs'
               \<and> length (fs_frames fs') = desiredFramesetSize s))"
proof (intro conjI impI)
  show "desiredFramesetSize s = (if isL500 s \<and> globalTimeSync s then 3 else 2)"
    by (simp add: desiredFramesetSize_def)
next
  assume a: "awaitFrameset s first retries = Some fs
        \<and> length (fs_frames fs) \<noteq> desiredFramesetSize s"
  then show "captureImage ip s sched maxW first retries now
          = \<lparr>cap_cam = s, cap_rest = sched, cap_data = \<lparr>sd_fused = None, sd_imu = None\<rparr>,
             cap_events = [], cap_log = [MissingFrames (length (fs_frames fs))]\<rparr>"
    by (simp add: captureImage_missing)
  from a obtain fs0 where f: "first = Some fs0"
    and r: "retryLoop (desiredFramesetSize s) fs0 retries = Some fs"
    by (auto simp: awaitFrameset_def split: option.splits)
  from retryLoop_wrong_size [OF r] a show "last (first # retries) = Some fs"
    by (simp add: f)
next
  assume "sd_fused (cap_data (captureImage ip s sched maxW first retries now)) \<noteq> None"
  then show "\<exists>fs'. awaitFrameset s first retries = Some fs'
               \<and> length (fs_frames fs') = desiredFramesetSize s"
    by (rule captureImage_fused_complete)
qed


lemma example_capture:
  "captureImage example_interpolate constructed [] 0 (Some example_frameset) [] now
     = \<lparr>cap_cam = fst (clockCheck constructed now 500), cap_rest = [],
        cap_data = \<lparr>sd_fused = Some \<lparr>image_frame = Some (a_frame RS2_STREAM_COLOR 500 (0, 0, 0)),
                                      second_frame = Some (a_frame RS2_STREAM_DEPTH 503 (0, 0, 0)),
                                      stereo = False,
                                      fused_stamp = fst (snd (clockCheck constructed now 500))\<rparr>,
                    sd_imu = None\<rparr>,
        cap_events = [], cap_log = snd (snd (clockCheck constructed now 500))\<rparr>"
  by (simp add: captureImage_def awaitFrameset_def desiredFramesetSize_def constructed_def
      example_frameset_def scan_frameset_def scan_frame_def a_frame_def Let_def clockCheck_def
      makeData_def attachIMU_def getPoseAndIMU_def)

theorem no_record_from_incomplete_frameset_witness:
  "awaitFrameset constructed (Some lone_frameset) [Some lone_frameset] = Some lone_frameset
   \<and> length (fs_frames lone_frameset) = 1 \<and> desiredFramesetSize constructed = 2
   \<and> captureImage example_interpolate constructed [] 0 (Some lone_frameset) [Some lone_frameset] 0
       = \<lparr>cap_cam = constructed, cap_rest = [], cap_data = \<lparr>sd_fused = None, sd_imu = None\<rparr>,
          cap_events = [], cap_log = [MissingFrames 1]\<rparr>
   \<and> sd_fused (cap_data (captureImage example_interpolate constructed [] 0
         (Some example_frameset) [] 0)) \<noteq> None
   \<and> awaitFrameset constructed (Some example_frameset) [] = Some example_frameset
   \<and> length (fs_frames example_frameset) = desiredFramesetSize constructed"
proof -
  have d: "desiredFramesetSize constructed = 2"
    by (simp add: desiredFramesetSize_def constructed_def)
  have l: "length (fs_frames lone_frameset) = 1" by (simp add: lone_frameset_def)
  have a: "awaitFrameset constructed (Some lone_frameset) [Some lone_frameset] = Some lone_frameset"
    by (simp add: awaitFrameset_def d l)
  have e: "awaitFrameset constructed (Some example_frameset) [] = Some example_frameset"
    by (simp add: awaitFrameset_def)
  have n: "length (fs_frames example_frameset) = 2" by (simp add: example_frameset_def)
  show ?thesis
    using a d l e n
      no_record_from_incomplete_frameset [of constructed "Some lone_frameset"
        "[Some lone_frameset]" lone_frameset example_interpolate "[]" 0 0]
      no_record_from_incomplete_frameset [of constructed "Some example_frameset" "[]"
        example_frameset example_interpolate "[]" 0 0]
    by (simp add: example_capture)
qed

text \<open>
  C9. When the stamp in seconds is more than 1000000000 ahead of the host time, the host
  time replaces it and the warning is logged unless the latch is set, which it is from then
  on; otherwise the stamp in seconds is kept and nothing is logged. The record that
  \<^verbatim>\<open>captureImage\<close> builds carries the stamp the check gives. Over a whole session the clock
  warning is logged at most once.
\<close>

theorem clock_anomaly_substitutes_host_time:
  "(stamp_ms / 1000 - now > 1000000000 \<longrightarrow>
      clockCheck s now stamp_ms
        = (s\<lparr>clockSyncWarningShown := True\<rparr>, now,
           if clockSyncWarningShown s then [] else [ClockNotSyncWarn]))
   \<and> (\<not> stamp_ms / 1000 - now > 1000000000 \<longrightarrow>
      clockCheck s now stamp_ms = (s, stamp_ms / 1000, []))
   \<and> (awaitFrameset s first retries = Some fs
        \<and> length (fs_frames fs) = desiredFramesetSize s
        \<and> sd_fused (cap_data (captureImage ip s sched maxW first retries now)) = Some d \<longrightarrow>
      fused_stamp d = fst (snd (clockCheck s now (scan_stamp (scan_frameset s fs)))))
   \<and> count_where is_clock_warning (snd (session ip s cs)) \<le> 1"
proof (intro conjI impI)
  assume "stamp_ms / 1000 - now > 1000000000"
  then show "clockCheck s now stamp_ms
        = (s\<lparr>clockSyncWarningShown := True\<rparr>, now,
           if clockSyncWarningShown s then [] else [ClockNotSyncWarn])"
    by (simp add: clockCheck_def Let_def)
next
  assume "\<not> stamp_ms / 1000 - now > 1000000000"
  then show "clockCheck s now stamp_ms = (s, stamp_ms / 1000, [])"
    by (simp add: clockCheck_def Let_def)
next
  assume a: "awaitFrameset s first retries = Some fs
        \<and> length (fs_frames fs) = desiredFramesetSize s
        \<and> sd_fused (cap_data (captureImage ip s sched maxW first retries now)) = Some d"
  then have "fst (makeData s (scan_frameset s fs)
                 (if scan_stamp (scan_frameset s fs) / 1000 - now > 1000000000 then now
                  else scan_stamp (scan_frameset s fs) / 1000)) = Some d"
    using sd_fused_captureImage [of s first retries fs ip sched maxW now] by simp
  then have "fused_stamp d = (if scan_stamp (scan_frameset s fs) / 1000 - now > 1000000000
               then now else scan_stamp (scan_frameset s fs) / 1000)"
    by (rule fused_stamp_makeData)
  then show "fused_stamp d = fst (snd (clockCheck s now (scan_stamp (scan_frameset s fs))))"
    by (simp add: clockCheck_def Let_def)
next
  show "count_where is_clock_warning (snd (session ip s cs)) \<le> 1"
    by (rule clock_warning_once)
qed


lemma constructed_latches:
  "clockSyncWarningShown constructed = False"
  "imuGlobalSyncWarningShown constructed = False"
  by (simp_all add: constructed_def)

lemma example_session_clock:
  "session example_interpolate constructed
     [CaptureImage [] 0 (Some future_frameset) [] 1700000000,
      CaptureImage [] 0 (Some future_frameset) [] 1700000000]
   = (constructed\<lparr>clockSyncWarningShown := True\<rparr>, [ClockNotSyncWarn])"
  by (simp add: captureImage_def awaitFrameset_def desiredFramesetSize_def constructed_def
      future_frameset_def scan_frameset_def scan_frame_def a_frame_def Let_def clockCheck_def
      makeData_def attachIMU_def getPoseAndIMU_def)

theorem clock_anomaly_substitutes_host_time_witness:
  "clockCheck constructed 1700000000 5000000000000
     = (constructed\<lparr>clockSyncWarningShown := True\<rparr>, 1700000000, [ClockNotSyncWarn])
   \<and> clockCheck constructed 0 500 = (constructed, 1 / 2, [])
   \<and> awaitFrameset constructed (Some example_frameset) [] = Some example_frameset
   \<and> scan_stamp (scan_frameset constructed example_frameset) = 500
   \<and> sd_fused (cap_data (captureImage example_interpolate constructed [] 0
         (Some example_frameset) [] 0))
       = Some \<lparr>image_frame = Some (a_frame RS2_STREAM_COLOR 500 (0, 0, 0)),
               second_frame = Some (a_frame RS2_STREAM_DEPTH 503 (0, 0, 0)),
               stereo = False, fused_stamp = 1 / 2\<rparr>
   \<and> count_where is_clock_warning (snd (session example_interpolate constructed
         [CaptureImage [] 0 (Some future_frameset) [] 1700000000,
          CaptureImage [] 0 (Some future_frameset) [] 1700000000])) = 1"
proof -
  have c: "clockCheck constructed 0 500 = (constructed, 1 / 2, [])"
    by (simp add: clockCheck_def)
  have e: "awaitFrameset constructed (Some example_frameset) [] = Some example_frameset"
    by (simp add: awaitFrameset_def)
  have n: "length (fs_frames example_frameset) = desiredFramesetSize constructed"
    by (simp add: example_frameset_def desiredFramesetSize_def constructed_def)
  have m: "scan_stamp (scan_frameset constructed example_frameset) = 500"
    by (simp add: scan_stamp_frameset example_frameset_stamps)
  show ?thesis
    using c e n m
      clock_anomaly_substitutes_host_time [of 5000000000000 1700000000 constructed
        "Some example_frameset" "[]" example_frameset example_interpolate "[]" 0
        "\<lparr>image_frame = Some (a_frame RS2_STREAM_COLOR 500 (0, 0, 0)),
          second_frame = Some (a_frame RS2_STREAM_DEPTH 503 (0, 0, 0)),
          stereo = False, fused_stamp = 1 / 2\<rparr>"
        "[CaptureImage [] 0 (Some future_frameset) [] 1700000000,
          CaptureImage [] 0 (Some future_frameset) [] 1700000000]"]
      clock_anomaly_substitutes_host_time [of 500 0 constructed
        "Some example_frameset" "[]" example_frameset example_interpolate "[]" 0
        "\<lparr>image_frame = Some (a_frame RS2_STREAM_COLOR 500 (0, 0, 0)),
          second_frame = Some (a_frame RS2_STREAM_DEPTH 503 (0, 0, 0)),
          stereo = False, fused_stamp = 1 / 2\<rparr>"
        "[CaptureImage [] 0 (Some future_frameset) [] 1700000000,
          CaptureImage [] 0 (Some future_frameset) [] 1700000000]"]
    unfolding example_session_clock
    by (simp add: example_capture constructed_latches)
qed


lemma example_session_strict:
  "session example_interpolate (init (example_cam True) None)
     [GetPoseAndIMU [] 50 0, GetPoseAndIMU [] 50 0]
   = (example_cam True,
      [PoseEarliestWarn, ImuEarliestWarn RS2_STREAM_ACCEL,
       PoseEarliestWarn, ImuEarliestWarn RS2_STREAM_ACCEL])"
  by (simp add: init_def example_cam_def constructed_def getPoseAndIMU_def interpolatePose_def
      interpolateIMU_def waitLoop.simps imuBuffer_def Let_def bracket_def lower_bound_def)

lemma example_session_lenient:
  "session example_interpolate (init (example_cam False) None)
     [GetPoseAndIMU [] 50 0, GetPoseAndIMU [] 50 0]
   = ((example_cam False)\<lparr>imuGlobalSyncWarningShown := True\<rparr>,
      [PoseEarliestWarn, ImuEarliestWarn RS2_STREAM_ACCEL, ImuRestampNotice RS2_STREAM_ACCEL,
       PoseEarliestWarn])"
  by (simp add: init_def example_cam_def constructed_def getPoseAndIMU_def interpolatePose_def
      interpolateIMU_def waitLoop.simps imuBuffer_def Let_def bracket_def lower_bound_def)

text \<open>
  C6, as stated, fails under strict time sync: two lookups before the earliest inertial
  sample in one session log the range warning twice, and the latch is not set.
\<close>

theorem desync_warning_repeats_under_time_sync_counterexample:
  "globalTimeSync (init (example_cam True) None)
   \<and> count_where is_range_warning
        (snd (session example_interpolate (init (example_cam True) None)
           [GetPoseAndIMU [] 50 0, GetPoseAndIMU [] 50 0])) = 2"
  unfolding example_session_strict
  by (simp add: init_def example_cam_def constructed_def)

text \<open>
  C6, amended. \<^verbatim>\<open>init\<close> clears both latches, and nothing in a session clears a latch that
  is set. The clock warning is logged at most once in a session, and not at all when its
  latch is set at the start. When strict time sync is off, the range warning of the inertial
  lookups and the re-stamp notice are each logged at most once in a session. Under strict
  time sync a session leaves the inertial latch as it was.
\<close>

theorem latches_one_shot:
  "\<not> clockSyncWarningShown (init s device) \<and> \<not> imuGlobalSyncWarningShown (init s device)
   \<and> count_where is_clock_warning (snd (session ip s cs)) \<le> 1
   \<and> (clockSyncWarningShown s \<longrightarrow>
        clockSyncWarningShown (fst (session ip s cs))
        \<and> count_where is_clock_warning (snd (session ip s cs)) = 0)
   \<and> (imuGlobalSyncWarningShown s \<longrightarrow> imuGlobalSyncWarningShown (fst (session ip s cs)))
   \<and> (\<not> globalTimeSync s \<longrightarrow>
        count_where is_range_warning (snd (session ip s cs)) \<le> 1
        \<and> count_where is_restamp_notice (snd (session ip s cs)) \<le> 1)
   \<and> (globalTimeSync s \<longrightarrow>
        imuGlobalSyncWarningShown (fst (session ip s cs)) = imuGlobalSyncWarningShown s)"
proof -
  have st: "session_step s (snd (session ip s cs)) (fst (session ip s cs))"
    by (rule session_steps) simp
  have i: "\<not> clockSyncWarningShown (init s device) \<and> \<not> imuGlobalSyncWarningShown (init s device)"
    by (simp add: init_def)
  show ?thesis
    using st i unfolding session_step_def once_step_def by blast
qed

theorem latches_one_shot_witness:
  "clockSyncWarningShown (constructed\<lparr>clockSyncWarningShown := True\<rparr>)
   \<and> snd (session example_interpolate (constructed\<lparr>clockSyncWarningShown := True\<rparr>)
        [CaptureImage [] 0 (Some future_frameset) [] 1700000000]) = []
   \<and> count_where is_clock_warning (snd (session example_interpolate constructed
         [CaptureImage [] 0 (Some future_frameset) [] 1700000000,
          CaptureImage [] 0 (Some future_frameset) [] 1700000000])) = 1
   \<and> \<not> globalTimeSync (init (example_cam False) None)
   \<and> count_where is_range_warning
        (snd (session example_interpolate (init (example_cam False) None)
           [GetPoseAndIMU [] 50 0, GetPoseAndIMU [] 50 0])) = 1
   \<and> count_where is_restamp_notice
        (snd (session example_interpolate (init (example_cam False) None)
           [GetPoseAndIMU [] 50 0, GetPoseAndIMU [] 50 0])) = 1
   \<and> imuGlobalSyncWarningShown ((example_cam False)\<lparr>imuGlobalSyncWarningShown := True\<rparr>)
   \<and> imuGlobalSyncWarningShown
        (fst (session example_interpolate ((example_cam False)\<lparr>imuGlobalSyncWarningShown := True\<rparr>)
           [GetPoseAndIMU [] 50 0]))
   \<and> globalTimeSync (init (example_cam True) None)
   \<and> \<not> imuGlobalSyncWarningShown
        (fst (session example_interpolate (init (example_cam True) None)
           [GetPoseAndIMU [] 50 0, GetPoseAndIMU [] 50 0]))"
proof -
  have a: "session example_interpolate (constructed\<lparr>clockSyncWarningShown := True\<rparr>)
        [CaptureImage [] 0 (Some future_frameset) [] 1700000000]
      = (constructed\<lparr>clockSyncWarningShown := True\<rparr>, [])"
    by (simp add: captureImage_def awaitFrameset_def desiredFramesetSize_def constructed_def
      future_frameset_def scan_frameset_def scan_frame_def a_frame_def Let_def clockCheck_def
      makeData_def attachIMU_def getPoseAndIMU_def)
  have f: "\<not> globalTimeSync (init (example_cam False) None)
           \<and> globalTimeSync (init (example_cam True) None)
           \<and> \<not> imuGlobalSyncWarningShown (example_cam True)"
    by (simp add: init_def example_cam_def constructed_def)
  show ?thesis
    using f
      latches_one_shot [of "constructed\<lparr>clockSyncWarningShown := True\<rparr>" None
        example_interpolate "[CaptureImage [] 0 (Some future_frameset) [] 1700000000]"]
      latches_one_shot [of "init (example_cam False) None" None
        example_interpolate "[GetPoseAndIMU [] 50 0, GetPoseAndIMU [] 50 0]"]
      latches_one_shot [of "(example_cam False)\<lparr>imuGlobalSyncWarningShown := True\<rparr>" None
        example_interpolate "[GetPoseAndIMU [] 50 0]"]
      latches_one_shot [of "init (example_cam True) None" None
        example_interpolate "[GetPoseAndIMU [] 50 0, GetPoseAndIMU [] 50 0]"]
    unfolding a example_session_clock example_session_lenient example_session_strict
    by simp
qed


section \<open>Invariants of the buffers over a session\<close>

lemma invariant_foldl:
  "buffer_invariant I \<Longrightarrow> I s \<Longrightarrow> I (foldl multiple_message_callback s fs)"
  by (induction fs arbitrary: s) (simp_all add: buffer_invariant_def)

lemma invariant_uSleep: "buffer_invariant I \<Longrightarrow> I s \<Longrightarrow> I (fst (uSleep s sched))"
  by (simp add: uSleep_def invariant_foldl split: list.splits)

lemma invariant_waitLoop:
  "buffer_invariant I \<Longrightarrow> I s \<Longrightarrow> I (fst (waitLoop sel maxW stamp n s sched))"
proof (induction sel maxW stamp n s sched rule: waitLoop.induct)
  case (1 sel maxW stamp n s sched)
  show ?case
  proof (cases "maxW > 0 \<and> fst (last (sel s)) < stamp \<and> n < maxW")
    case True
    obtain s' sched' where u: "uSleep s sched = (s', sched')" by (cases "uSleep s sched")
    have "I s'" using invariant_uSleep [OF "1.prems", of sched] u by simp
    then have "I (fst (waitLoop sel maxW stamp (n + 1) s' sched'))"
      using True u "1.prems"(1) by (intro "1.IH") simp_all
    then show ?thesis using True u by (subst waitLoop.simps) simp
  next
    case False
    then show ?thesis using "1.prems"(2) by (subst waitLoop.simps) auto
  qed
qed

lemma interpolateIMU_cam:
  "fst (interpolateIMU st s sched stamp maxW) = fst (waitLoop (imuBuffer st) maxW stamp 0 s sched)
   \<or> fst (interpolateIMU st s sched stamp maxW)
       = (fst (waitLoop (imuBuffer st) maxW stamp 0 s sched))\<lparr>imuGlobalSyncWarningShown := True\<rparr>"
  by (simp add: interpolateIMU_def Let_def split: prod.splits)

lemma invariant_interpolatePose:
  "buffer_invariant I \<Longrightarrow> I s \<Longrightarrow> I (fst (interpolatePose ip s sched stamp maxW))"
  using interpolatePose_facts [of ip s sched stamp maxW] by (simp add: invariant_waitLoop)

lemma invariant_interpolateIMU:
  assumes "buffer_invariant I" "I s"
  shows "I (fst (interpolateIMU st s sched stamp maxW))"
proof -
  have "I (fst (waitLoop (imuBuffer st) maxW stamp 0 s sched))"
    using assms by (rule invariant_waitLoop)
  moreover have "I ((fst (waitLoop (imuBuffer st) maxW stamp 0 s sched))
                      \<lparr>imuGlobalSyncWarningShown := True\<rparr>)"
    using calculation assms(1) by (simp add: buffer_invariant_def)
  ultimately show ?thesis
    using interpolateIMU_cam [of st s sched stamp maxW] by auto
qed

lemma invariant_getPoseAndIMU:
  assumes "buffer_invariant I" "I s"
  shows "I (cam (getPoseAndIMU ip s sched stamp maxW))"
proof (cases "accBuffer s = [] \<or> gyroBuffer s = []")
  case True
  then show ?thesis using assms(2) by (simp add: getPoseAndIMU_def)
next
  case False
  obtain s1 sched1 p c w1 where
    pb: "(if poseBuffer s \<noteq> [] then interpolatePose ip s sched stamp maxW
          else (s, sched, None, 0, [])) = (s1, sched1, p, c, w1)"
    by (metis prod_cases5)
  have i1: "I s1"
    using pb invariant_interpolatePose [OF assms, of ip sched stamp maxW] assms(2)
    by (auto split: if_splits)
  obtain s2 sched2 accV w2 where
    ab: "interpolateIMU RS2_STREAM_ACCEL s1 sched1 stamp maxW = (s2, sched2, accV, w2)"
    by (metis prod_cases4)
  have i2: "I s2"
    using invariant_interpolateIMU [OF assms(1) i1, of RS2_STREAM_ACCEL sched1 stamp maxW] ab
    by simp
  obtain s3 sched3 gyroV w3 where
    gb: "interpolateIMU RS2_STREAM_GYRO s2 sched2 stamp maxW = (s3, sched3, gyroV, w3)"
    by (metis prod_cases4)
  have i3: "I s3"
    using invariant_interpolateIMU [OF assms(1) i2, of RS2_STREAM_GYRO sched2 stamp maxW] gb
    by simp
  show ?thesis
    using False pb ab gb i2 i3 by (cases accV) (simp_all add: getPoseAndIMU_def)
qed

lemma invariant_publishLoop:
  "buffer_invariant I \<Longrightarrow> I s \<Longrightarrow> I (fst (publishLoop ip s sched maxW ks))"
proof (induction ks arbitrary: s sched)
  case Nil
  then show ?case by simp
next
  case (Cons k ks)
  let ?r = "getPoseAndIMU ip s sched k maxW"
  have i: "I (cam ?r)" using Cons.prems by (rule invariant_getPoseAndIMU)
  then have "I (fst (publishLoop ip (cam ?r) (rest ?r) maxW ks))"
    using Cons.prems(1) by (intro Cons.IH)
  then show ?case using i by (auto simp: Let_def split: option.splits prod.splits)
qed

lemma invariant_attachIMU:
  assumes "buffer_invariant I" "I s"
  shows "I (cap_cam (attachIMU ip s sched maxW fd stamp_s ws))"
proof -
  let ?r = "getPoseAndIMU ip s sched (stamp_s * 1000) maxW"
  have i: "I (cam ?r)" using assms by (rule invariant_getPoseAndIMU)
  have l: "\<And>c t. I c \<Longrightarrow> I (c\<lparr>lastImuStamp := t\<rparr>)"
    using assms(1) by (simp add: buffer_invariant_def)
  have p: "I s2" if "publishLoop ip (cam ?r) (rest ?r) maxW ks = (s2, sched2, ev2, ws2)"
    for ks s2 sched2 ev2 ws2
    using invariant_publishLoop [OF assms(1) i, of ip "rest ?r" maxW ks] that by simp
  show ?thesis
    using i l p by (simp add: attachIMU_def Let_def split: prod.splits)
qed

lemma invariant_captureImage:
  assumes "buffer_invariant I" "I s"
  shows "I (cap_cam (captureImage ip s sched maxW first retries now))"
proof -
  have c: "I s1" if "clockCheck s now t = (s1, a, b)" for t s1 a b
    using assms that by (auto simp: clockCheck_def Let_def buffer_invariant_def split: if_split_asm)
  have "I (cap_cam (attachIMU ip s1 sched maxW fd stamp_s ws))"
    if "clockCheck s now t = (s1, a, b)" for t s1 a b fd stamp_s ws
    using assms(1) c [OF that] by (rule invariant_attachIMU)
  then show ?thesis
    using assms(2)
    by (auto simp: captureImage_def thrown_def Let_def split: option.splits prod.splits)
qed

lemma invariant_session:
  "buffer_invariant I \<Longrightarrow> I s \<Longrightarrow> I (fst (session ip s cs))"
proof (induction cs arbitrary: s)
  case Nil
  then show ?case by simp
next
  case (Cons c cs)
  have "I (fst (perform ip s c))"
    using Cons.prems invariant_getPoseAndIMU [OF Cons.prems]
      invariant_captureImage [OF Cons.prems]
    by (cases c) (simp_all add: buffer_invariant_def Let_def)
  then have "I (fst (session ip (fst (perform ip s c)) cs))"
    using Cons.prems(1) by (intro Cons.IH)
  then show ?case by (auto split: prod.splits)
qed

lemma within_capacity_invariant: "buffer_invariant within_capacity"
  by (simp add: buffer_invariant_def within_capacity_callback) (simp add: within_capacity_def)

lemma ordered_buffers_invariant: "buffer_invariant ordered_buffers"
  unfolding buffer_invariant_def
  by (auto simp: ordered_buffers_def multiple_message_callback_def imu_callback_def
      pose_callback_def frame_callback_def strictly_ordered_push_sample
      split: stream_type.splits)

lemma nonempty_invariant:
  "buffer_invariant (\<lambda>s. gyroBuffer s \<noteq> [])"
  "buffer_invariant (\<lambda>s. accBuffer s \<noteq> [])"
  "buffer_invariant (\<lambda>s. poseBuffer s \<noteq> [])"
  unfolding buffer_invariant_def
  by (auto simp: multiple_message_callback_def imu_callback_def
      pose_callback_def frame_callback_def push_sample_nonempty split: stream_type.splits)

text \<open>
  From the constructed camera on, every session leaves the buffers strictly ordered and
  within their capacity.
\<close>

lemma session_buffers_well_formed:
  "ordered_buffers (fst (session ip constructed cs))
   \<and> within_capacity (fst (session ip constructed cs))"
proof -
  have "ordered_buffers constructed" "within_capacity constructed"
    by (simp_all add: ordered_buffers_def within_capacity_def constructed_def strictly_ordered_def)
  then show ?thesis
    using invariant_session [OF ordered_buffers_invariant]
      invariant_session [OF within_capacity_invariant] by blast
qed


text \<open>
  The wait loops read \<^verbatim>\<open>rbegin()\<close> of a buffer that was not empty when the function tested
  it: it is still not empty after any wait.
\<close>

lemma waited_buffers_nonempty:
  "gyroBuffer s \<noteq> [] \<Longrightarrow> gyroBuffer (fst (waitLoop sel maxW stamp n s sched)) \<noteq> []"
  "accBuffer s \<noteq> [] \<Longrightarrow> accBuffer (fst (waitLoop sel maxW stamp n s sched)) \<noteq> []"
  "poseBuffer s \<noteq> [] \<Longrightarrow> poseBuffer (fst (waitLoop sel maxW stamp n s sched)) \<noteq> []"
  using invariant_waitLoop [OF nonempty_invariant(1), of s sel maxW stamp n sched]
    invariant_waitLoop [OF nonempty_invariant(2), of s sel maxW stamp n sched]
    invariant_waitLoop [OF nonempty_invariant(3), of s sel maxW stamp n sched]
  by simp_all

end
